theory Spec2Isabelle
  imports Main "HOL-Library.Word" "HOL-Library.Char_ord" "HOL-Library.List_Lexorder"
    "HOL-Library.Multiset"
begin

unbundle bit_operations_syntax

section \<open>Go library functions used by the git tree lister\<close>

text \<open>
  Go strings are byte sequences; they are modelled as \<^typ>\<open>string\<close> (a list of 8-bit
  characters). The separators that the source passes as one-byte strings (the NUL byte, the
  space, the tab and the slash) are passed here as single characters.
\<close>

abbreviation NUL :: char where "NUL \<equiv> CHR 0x00"
abbreviation TAB :: char where "TAB \<equiv> CHR 0x09"
abbreviation SP :: char where "SP \<equiv> CHR '' ''"

text \<open>\<^verbatim>\<open>strings.HasPrefix\<close>, \<^verbatim>\<open>strings.TrimPrefix\<close>.\<close>

definition HasPrefix :: "string \<Rightarrow> string \<Rightarrow> bool" where
  "HasPrefix s p = (take (length p) s = p)"

definition TrimPrefix :: "string \<Rightarrow> string \<Rightarrow> string" where
  "TrimPrefix s p = (if HasPrefix s p then drop (length p) s else s)"

text \<open>\<^verbatim>\<open>strings.IndexByte\<close> and \<^verbatim>\<open>strings.LastIndexByte\<close>: the index of the first
  (last) occurrence of the byte, or \<open>-1\<close>.\<close>

definition IndexByte :: "string \<Rightarrow> char \<Rightarrow> int" where
  "IndexByte s c = (if c \<in> set s then int (length (takeWhile (\<lambda>x. x \<noteq> c) s)) else - 1)"

definition LastIndexByte :: "string \<Rightarrow> char \<Rightarrow> int" where
  "LastIndexByte s c =
     (if c \<in> set s then int (length s) - 1 - int (length (takeWhile (\<lambda>x. x \<noteq> c) (rev s)))
      else - 1)"

text \<open>\<^verbatim>\<open>bytes.Contains\<close>: the second argument occurs as a contiguous run of the first.\<close>

fun Contains :: "string \<Rightarrow> string \<Rightarrow> bool" where
  "Contains [] sub = (sub = [])"
| "Contains (c # cs) sub = (HasPrefix (c # cs) sub \<or> Contains cs sub)"

text \<open>\<^verbatim>\<open>strings.Split\<close> with a one-byte separator: one more piece than there are
  separators; the empty string gives the one piece \<open>''''\<close>.\<close>

fun Split :: "string \<Rightarrow> char \<Rightarrow> string list" where
  "Split [] sep = [[]]"
| "Split (c # cs) sep =
     (if c = sep then [] # Split cs sep
      else (case Split cs sep of [] \<Rightarrow> [[c]] | piece # pieces \<Rightarrow> (c # piece) # pieces))"

text \<open>\<^verbatim>\<open>strings.SplitN\<close> with a one-byte separator and a count \<open>n \<ge> 0\<close>: at most \<open>n\<close>
  pieces, the last one being the unsplit remainder; \<open>n = 0\<close> gives no piece.\<close>

fun SplitN :: "string \<Rightarrow> char \<Rightarrow> nat \<Rightarrow> string list" where
  "SplitN s sep 0 = []"
| "SplitN s sep (Suc 0) = [s]"
| "SplitN s sep (Suc (Suc n)) =
     (if sep \<in> set s
      then takeWhile (\<lambda>x. x \<noteq> sep) s # SplitN (tl (dropWhile (\<lambda>x. x \<noteq> sep) s)) sep (Suc n)
      else [s])"

text \<open>\<^verbatim>\<open>strings.TrimSpace\<close> (and \<^verbatim>\<open>bytes.TrimSpace\<close>) removes leading and trailing white
  space as Unicode defines it, on the UTF-8 encoding: the six ASCII characters and the
  encodings of U+0085, U+00A0, U+1680, U+2000 to U+200A, U+2028, U+2029, U+202F, U+205F and
  U+3000.\<close>

definition whiteSpace :: "string list" where
  "whiteSpace =
     [[CHR 0x09], [CHR 0x0A], [CHR 0x0B], [CHR 0x0C], [CHR 0x0D], [CHR 0x20],
      [CHR 0xC2, CHR 0x85], [CHR 0xC2, CHR 0xA0], [CHR 0xE1, CHR 0x9A, CHR 0x80],
      [CHR 0xE2, CHR 0x80, CHR 0x80], [CHR 0xE2, CHR 0x80, CHR 0x81],
      [CHR 0xE2, CHR 0x80, CHR 0x82], [CHR 0xE2, CHR 0x80, CHR 0x83],
      [CHR 0xE2, CHR 0x80, CHR 0x84], [CHR 0xE2, CHR 0x80, CHR 0x85],
      [CHR 0xE2, CHR 0x80, CHR 0x86], [CHR 0xE2, CHR 0x80, CHR 0x87],
      [CHR 0xE2, CHR 0x80, CHR 0x88], [CHR 0xE2, CHR 0x80, CHR 0x89],
      [CHR 0xE2, CHR 0x80, CHR 0x8A], [CHR 0xE2, CHR 0x80, CHR 0xA8],
      [CHR 0xE2, CHR 0x80, CHR 0xA9], [CHR 0xE2, CHR 0x80, CHR 0xAF],
      [CHR 0xE2, CHR 0x81, CHR 0x9F], [CHR 0xE3, CHR 0x80, CHR 0x80]]"

definition HasSuffix :: "string \<Rightarrow> string \<Rightarrow> bool" where
  "HasSuffix s p = (length p \<le> length s \<and> drop (length s - length p) s = p)"

definition leadingSpace :: "string \<Rightarrow> nat" where
  "leadingSpace s =
     (case filter (HasPrefix s) whiteSpace of [] \<Rightarrow> 0 | w # _ \<Rightarrow> length w)"

definition trailingSpace :: "string \<Rightarrow> nat" where
  "trailingSpace s =
     (case filter (HasSuffix s) whiteSpace of [] \<Rightarrow> 0 | w # _ \<Rightarrow> length w)"

function TrimLeftSpace :: "string \<Rightarrow> string" where
  "TrimLeftSpace s =
     (if s \<noteq> [] \<and> 0 < leadingSpace s then TrimLeftSpace (drop (leadingSpace s) s) else s)"
  by pat_completeness auto
termination
  by (relation "measure length") auto

function TrimRightSpace :: "string \<Rightarrow> string" where
  "TrimRightSpace s =
     (if s \<noteq> [] \<and> 0 < trailingSpace s
      then TrimRightSpace (take (length s - trailingSpace s) s) else s)"
  by pat_completeness auto
termination
  by (relation "measure length") auto

declare TrimLeftSpace.simps [simp del] TrimRightSpace.simps [simp del]

definition TrimSpace :: "string \<Rightarrow> string" where
  "TrimSpace s = TrimRightSpace (TrimLeftSpace s)"

text \<open>\<^verbatim>\<open>strconv.ParseInt(s, base, bitSize)\<close>: an optional sign, then at least one digit
  of the base and nothing else. The digits are read from the left by \<^verbatim>\<open>ParseUint\<close>, which
  stops with a syntax error at a character that is no digit of the base and with a range
  error as soon as the value read so far exceeds \<open>bitSize\<close> unsigned bits, whatever
  follows; a value outside the signed range of \<open>bitSize\<close> bits is a range error too. (The
  source always gives the base, so no base prefix and no underscore is read.)\<close>

datatype NumErr = ErrSyntax | ErrRange

definition digitVal :: "char \<Rightarrow> int option" where
  "digitVal c =
     (let n = (of_char c :: int) in
      if 48 \<le> n \<and> n \<le> 57 then Some (n - 48)
      else if 97 \<le> n \<and> n \<le> 122 then Some (n - 97 + 10)
      else if 65 \<le> n \<and> n \<le> 90 then Some (n - 65 + 10)
      else None)"

fun digitsVal :: "int \<Rightarrow> int \<Rightarrow> int \<Rightarrow> string \<Rightarrow> NumErr + int" where
  "digitsVal base maxVal acc [] = Inr acc"
| "digitsVal base maxVal acc (c # cs) =
     (case digitVal c of
        None \<Rightarrow> Inl ErrSyntax
      | Some d \<Rightarrow>
          if base \<le> d then Inl ErrSyntax
          else if maxVal < acc * base + d then Inl ErrRange
          else digitsVal base maxVal (acc * base + d) cs)"

definition ParseInt :: "string \<Rightarrow> int \<Rightarrow> nat \<Rightarrow> NumErr + int" where
  "ParseInt s base bitSize =
     (if s = [] then Inl ErrSyntax
      else
        let neg = (hd s = CHR ''-'');
            ds = (if hd s = CHR ''+'' \<or> hd s = CHR ''-'' then tl s else s)
        in if ds = [] then Inl ErrSyntax
           else (case digitsVal base (2 ^ bitSize - 1) 0 ds of
                   Inl e \<Rightarrow> Inl e
                 | Inr un \<Rightarrow>
                     let cutoff = (2::int) ^ (bitSize - 1)
                     in if \<not> neg \<and> cutoff \<le> un then Inl ErrRange
                        else if neg \<and> cutoff < un then Inl ErrRange
                        else Inr (if neg then - un else un)))"

text \<open>\<^verbatim>\<open>filepath.Clean\<close> on a system whose separator is the slash: empty components and
  \<open>.\<close> are dropped, \<open>..\<close> removes the component before it (at the root it is dropped, at the
  start of a relative path it stays), and the empty result is \<open>.\<close>. \<^verbatim>\<open>filepath.ToSlash\<close> is
  the identity there.\<close>

fun cleanStep :: "bool \<Rightarrow> string list \<Rightarrow> string \<Rightarrow> string list" where
  "cleanStep rooted stack elem =
     (if elem = [] \<or> elem = ''.'' then stack
      else if elem = ''..'' then
        (if stack \<noteq> [] \<and> last stack \<noteq> ''..'' then butlast stack
         else if rooted then stack else stack @ [elem])
      else stack @ [elem])"

fun joinSlash :: "string list \<Rightarrow> string" where
  "joinSlash [] = []"
| "joinSlash [c] = c"
| "joinSlash (c # cs) = c @ ''/'' @ joinSlash cs"

definition Clean :: "string \<Rightarrow> string" where
  "Clean path =
     (let rooted = HasPrefix path ''/'';
          body = joinSlash (foldl (cleanStep rooted) [] (Split path (CHR ''/'')))
      in if rooted then ''/'' @ body else if body = [] then ''.'' else body)"

definition ToSlash :: "string \<Rightarrow> string" where
  "ToSlash path = path"

section \<open>Data model\<close>

text \<open>\<^verbatim>\<open>vcs.SubmoduleInfo\<close> and \<^verbatim>\<open>util.FileInfo\<close>, with the fields the source sets.
  The Go fields \<^verbatim>\<open>Name_\<close>, \<^verbatim>\<open>Mode_\<close>, \<^verbatim>\<open>Size_\<close> and \<^verbatim>\<open>Sys_\<close> are written with a prime for the
  underscore, which cannot end a name here. \<^verbatim>\<open>os.FileMode\<close> is an unsigned 32-bit integer,
  the size a signed 64-bit one (read by \<open>ParseInt\<close> with that range, so never out of it);
  \<open>Sys'\<close> is nil or a \<^verbatim>\<open>vcs.SubmoduleInfo\<close>. The methods \<^verbatim>\<open>Name()\<close> and \<^verbatim>\<open>Mode()\<close> that
  \<^verbatim>\<open>Stat\<close> calls read the fields.\<close>

record SubmoduleInfo =
  URL :: string
  CommitID :: string

record FileInfo =
  Name' :: string
  Mode' :: "32 word"
  Size' :: int
  Sys' :: "SubmoduleInfo option"

definition ModeDir :: "32 word" where
  "ModeDir = 2 ^ 31"

definition ModeSymlink :: "32 word" where
  "ModeSymlink = 2 ^ 27"

definition gitModeSymlink :: int where
  "gitModeSymlink = 8192"

text \<open>The error values the source returns, one constructor for each place that makes one:
  the error of \<^verbatim>\<open>checkSpecArgSafety\<close>; \<^verbatim>\<open>os.PathError\<close> with \<^verbatim>\<open>os.ErrNotExist\<close> (its
  operation and path); the failed execution (arguments, exit error, output); the three
  \<^verbatim>\<open>invalid `git ls-tree` output\<close> errors; the \<^verbatim>\<open>strconv\<close> error of the mode field; a
  run-time panic; and any other error that \<^verbatim>\<open>readFileBytes\<close> may return.\<close>

datatype error =
    UnsafeArgumentError string
  | PathErrorNotExist string string
  | ExecError "string list" string string
  | InvalidOutput string
  | InvalidOid string
  | InvalidSize string "NumErr option"
  | NumError string NumErr
  | Panic string
  | OtherError string

definition isNotFound :: "error \<Rightarrow> bool" where
  "isNotFound e = (case e of PathErrorNotExist _ _ \<Rightarrow> True | _ \<Rightarrow> False)"

text \<open>The errors that report output of the subprocess that is not in the record format:
  the three errors that the loop makes itself, and the \<^verbatim>\<open>strconv\<close> error that it returns as it
  is when the mode field is not an octal number of at most 32 bits.\<close>

definition isMalformedOutput :: "error \<Rightarrow> bool" where
  "isMalformedOutput e =
     (case e of InvalidOutput _ \<Rightarrow> True | InvalidOid _ \<Rightarrow> True | InvalidSize _ _ \<Rightarrow> True
      | NumError _ _ \<Rightarrow> True | _ \<Rightarrow> False)"

text \<open>
  What the functions under verification use and the source files do not contain is a
  parameter: the receiver's \<^verbatim>\<open>repoURI\<close>; the argument guard \<^verbatim>\<open>checkSpecArgSafety\<close> (its
  error message, if it rejects); \<^verbatim>\<open>ensureAbsCommit\<close> (the message of its panic, if it
  panics); \<^verbatim>\<open>vcs.IsAbsoluteRevision\<close>; \<^verbatim>\<open>util.Rel\<close>; the constant \<^verbatim>\<open>vcs.ModeSubmodule\<close>; the
  subprocess, as the two ways the source runs a command (\<^verbatim>\<open>CombinedOutput\<close> and \<^verbatim>\<open>Output\<close>:
  the bytes and the exit error, for the full argument vector); \<^verbatim>\<open>readFileBytes\<close> (its
  result and the subprocesses it runs); and the clock (\<open>elapsed\<close>, the milliseconds that
  \<^verbatim>\<open>time.Since(start)\<close> measures, which may depend on everything run so far).
\<close>

record Repository =
  repoURI :: string
  checkSpecArgSafety :: "string \<Rightarrow> string option"
  ensureAbsCommit :: "string \<Rightarrow> string option"
  IsAbsoluteRevision :: "string \<Rightarrow> bool"
  Rel :: "string \<Rightarrow> string"
  ModeSubmodule :: int
  CombinedOutput :: "string list \<Rightarrow> string \<times> string option"
  Output :: "string list \<Rightarrow> string \<times> string option"
  readFileBytes :: "string \<Rightarrow> string \<Rightarrow> (error + string) \<times> string list list"
  elapsed :: "string list list \<Rightarrow> nat"

text \<open>The state of the process: the package-level \<^verbatim>\<open>lsTreeRootCache\<close> (most recently used
  entry first) and the subprocess invocations made so far, each with its full argument
  vector. The functions that touch no shared state (\<^verbatim>\<open>lsTreeUncached\<close> and the body of its
  loop) return, next to their result, the invocations they made, in order; \<open>logged\<close> adds
  them to the state.\<close>

record world =
  lsTreeRootCache :: "(string \<times> FileInfo list) list"
  invocations :: "string list list"

definition logged :: "world \<Rightarrow> string list list \<Rightarrow> world" where
  "logged st runs = st\<lparr>invocations := invocations st @ runs\<rparr>"

text \<open>\<^verbatim>\<open>lru.Cache\<close> of groupcache with \<^verbatim>\<open>MaxEntries = 5\<close>: \<^verbatim>\<open>Get\<close> moves the entry it finds to
  the front; \<^verbatim>\<open>Add\<close> puts the entry at the front and removes the oldest one when there are
  more than five.\<close>

definition lruGet :: "(string \<times> 'v) list \<Rightarrow> string \<Rightarrow> 'v option \<times> (string \<times> 'v) list" where
  "lruGet c k =
     (case map_of c k of
        None \<Rightarrow> (None, c)
      | Some v \<Rightarrow> (Some v, (k, v) # filter (\<lambda>kv. fst kv \<noteq> k) c))"

definition lruAdd :: "(string \<times> 'v) list \<Rightarrow> string \<Rightarrow> 'v \<Rightarrow> (string \<times> 'v) list" where
  "lruAdd c k v =
     (let c' = (k, v) # filter (\<lambda>kv. fst kv \<noteq> k) c
      in if 5 < length c' then butlast c' else c')"

text \<open>Modelled from the spec: \<^verbatim>\<open>util.SortFileInfosByName\<close> is not among the source files. The
  spec has the entries \<^emph>\<open>returned sorted by name\<close>, \<^emph>\<open>case-sensitively, byte-wise\<close>; the
  call site passes a slice and takes no result, so the entries are permuted in place and
  none is added or removed.\<close>

definition SortFileInfosByName :: "FileInfo list \<Rightarrow> FileInfo list" where
  "SortFileInfosByName fis = sort_key Name' fis"

section \<open>The tree lister\<close>

text \<open>The body of the loop of \<^verbatim>\<open>lsTreeUncached\<close> for one record, in three parts.
  First the size field: the dash stands for size 0 (a directory or a submodule), anything
  else must be read by \<open>ParseInt\<close> as a non-negative 64-bit integer.\<close>

definition parseSize :: "string \<Rightarrow> error + int" where
  "parseSize sizeStr =
     (if sizeStr \<noteq> ''-''
      then (case ParseInt sizeStr 10 64 of
              Inl e \<Rightarrow> Inl (InvalidSize sizeStr (Some e))
            | Inr n \<Rightarrow> if n < 0 then Inl (InvalidSize sizeStr None) else Inr n)
      else Inr 0)"

text \<open>The \<^verbatim>\<open>switch typ\<close>: the mode as a 64-bit integer and the value of \<open>Sys'\<close>. A blob with
  the symlink bit of git (\<open>020000\<close> octal) becomes \<^verbatim>\<open>os.ModeSymlink\<close>, any other blob gets
  \<open>0644\<close> octal; a commit gets \<^verbatim>\<open>vcs.ModeSubmodule\<close> and the submodule's information, its URL
  read by \<^verbatim>\<open>git config\<close> (a subprocess whose failure leaves the URL empty); a tree gets
  \<^verbatim>\<open>os.ModeDir\<close>; any other type tag leaves the mode as it is.\<close>

definition translateMode :: "Repository \<Rightarrow> string \<Rightarrow> string \<Rightarrow> string \<Rightarrow> int
    \<Rightarrow> (int \<times> SubmoduleInfo option) \<times> string list list" where
  "translateMode r typ oid name mode =
     (if typ = ''blob'' then
        (if mode AND gitModeSymlink \<noteq> 0 then ((uint ModeSymlink, None), [])
         else ((mode OR 420, None), []))
      else if typ = ''commit'' then
        (let argv = [''git'', ''config'', ''--get'', ''submodule.'' @ name @ ''.url''];
             (cfg, err) = Output r argv;
             url = (case err of None \<Rightarrow> TrimSpace cfg | Some _ \<Rightarrow> [])
         in ((mode OR ModeSubmodule r, Some \<lparr>URL = url, CommitID = oid\<rparr>), [argv]))
      else if typ = ''tree'' then ((mode OR uint ModeDir, None), [])
      else ((mode, None), []))"

text \<open>The whole body, for the record \<open>line\<close>: the checks in the order of the source, then
  the entry. The slice \<^verbatim>\<open>name[prefixLen:]\<close> panics in Go when \<open>prefixLen\<close> exceeds the length
  of \<open>name\<close>.\<close>

definition lsTreeEntry :: "Repository \<Rightarrow> string \<Rightarrow> string \<Rightarrow> nat \<Rightarrow> string
    \<Rightarrow> (error + FileInfo) \<times> string list list" where
  "lsTreeEntry r out trimPath prefixLen line =
     (let tabPos = IndexByte line TAB in
      if tabPos = - 1 then (Inl (InvalidOutput out), [])
      else
        let info = SplitN (take (nat tabPos) line) SP 4;
            name0 = drop (nat tabPos + 1) line;
            name = (if length name0 < length trimPath then trimPath else name0)
        in
        if length info \<noteq> 4 then (Inl (InvalidOutput out), [])
        else
          let typ = info ! 1;
              oid = info ! 2
          in
          if \<not> IsAbsoluteRevision r oid then (Inl (InvalidOid oid), [])
          else
            (case parseSize (TrimSpace (info ! 3)) of
               Inl e \<Rightarrow> (Inl e, [])
             | Inr sz \<Rightarrow>
                 (case ParseInt (info ! 0) 8 32 of
                    Inl e \<Rightarrow> (Inl (NumError (info ! 0) e), [])
                  | Inr mode0 \<Rightarrow>
                      (case translateMode r typ oid name mode0 of
                         ((mode, sys), runs) \<Rightarrow>
                           if length name < prefixLen
                           then (Inl (Panic ''slice bounds out of range''), runs)
                           else (Inr \<lparr>Name' = drop prefixLen name, Mode' = word_of_int mode,
                                      Size' = sz, Sys' = sys\<rparr>, runs)))))"

text \<open>The loop: every element of \<open>lines\<close> but the last (index \<^verbatim>\<open>len(lines)-1\<close>, skipped by
  \<^verbatim>\<open>continue\<close>) gives the entry of its index; the first error ends the function.\<close>

fun lsTreeLoop :: "Repository \<Rightarrow> string \<Rightarrow> string \<Rightarrow> nat \<Rightarrow> string list
    \<Rightarrow> (error + FileInfo list) \<times> string list list" where
  "lsTreeLoop r out trimPath prefixLen [] = (Inr [], [])"
| "lsTreeLoop r out trimPath prefixLen [line] = (Inr [], [])"
| "lsTreeLoop r out trimPath prefixLen (line # rest) =
     (case lsTreeEntry r out trimPath prefixLen line of
        (Inl e, runs) \<Rightarrow> (Inl e, runs)
      | (Inr fi, runs) \<Rightarrow>
          (case lsTreeLoop r out trimPath prefixLen rest of
             (Inl e, runs') \<Rightarrow> (Inl e, runs @ runs')
           | (Inr fis, runs') \<Rightarrow> (Inr (fi # fis), runs @ runs')))"

definition lsTreeArgs :: "string \<Rightarrow> string \<Rightarrow> bool \<Rightarrow> string list" where
  "lsTreeArgs commit path recurse =
     [''ls-tree'', ''--long'', ''--full-name'', ''-z'', commit]
       @ (if recurse then [''-r'', ''-t''] else [])
       @ (if path \<noteq> [] then [''--'', ToSlash path] else [])"

definition lsTreeUncached :: "Repository \<Rightarrow> string \<Rightarrow> string \<Rightarrow> bool
    \<Rightarrow> (error + FileInfo list) \<times> string list list" where
  "lsTreeUncached r commit path recurse =
     (case ensureAbsCommit r commit of
        Some msg \<Rightarrow> (Inl (Panic msg), [])
      | None \<Rightarrow>
     (case checkSpecArgSafety r path of
        Some msg \<Rightarrow> (Inl (UnsafeArgumentError msg), [])
      | None \<Rightarrow>
          let argv = ''git'' # lsTreeArgs commit path recurse;
              (out, err) = CombinedOutput r argv
          in
          (case err of
             Some e \<Rightarrow>
               if Contains out ''exists on disk, but not in''
               then (Inl (PathErrorNotExist ''ls-tree'' (ToSlash path)), [argv])
               else (Inl (ExecError argv e out), [argv])
           | None \<Rightarrow>
               if length out = 0 then (Inl (PathErrorNotExist ''git ls-tree'' path), [argv])
               else
                 let trimPath = TrimPrefix path ''./'';
                     prefixLen = nat (LastIndexByte trimPath (CHR ''/'') + 1);
                     lines = Split out NUL
                 in
                 (case lsTreeLoop r out trimPath prefixLen lines of
                    (Inl e, runs) \<Rightarrow> (Inl e, argv # runs)
                  | (Inr fis, runs) \<Rightarrow> (Inr (SortFileInfosByName fis), argv # runs)))))"

section \<open>The root listing cache\<close>

definition cacheKey :: "Repository \<Rightarrow> string \<Rightarrow> string \<Rightarrow> string" where
  "cacheKey r commit path = repoURI r @ '':'' @ commit @ '':'' @ path"

definition lsTree :: "Repository \<Rightarrow> string \<Rightarrow> string \<Rightarrow> bool \<Rightarrow> world
    \<Rightarrow> (error + FileInfo list) \<times> world" where
  "lsTree r commit path recurse st =
     (if path \<noteq> [] \<or> \<not> recurse
      then (case lsTreeUncached r commit path recurse of (res, runs) \<Rightarrow> (res, logged st runs))
      else
        let key = cacheKey r commit path;
            (v, c1) = lruGet (lsTreeRootCache st) key;
            st1 = st\<lparr>lsTreeRootCache := c1\<rparr>
        in
        (case v of
           Some entries \<Rightarrow> (Inr entries, st1)
         | None \<Rightarrow>
             (case lsTreeUncached r commit path recurse of
                (Inl e, runs) \<Rightarrow> (Inl e, logged st1 runs)
              | (Inr entries, runs) \<Rightarrow>
                  let st2 = logged st1 runs in
                  if 500 < elapsed r (invocations st2) \<and> 5000 < length entries
                  then (Inr entries,
                        st2\<lparr>lsTreeRootCache := lruAdd (lsTreeRootCache st2) key entries\<rparr>)
                  else (Inr entries, st2))))"

section \<open>The facade: Lstat, Stat and ReadDir\<close>

definition Lstat :: "Repository \<Rightarrow> string \<Rightarrow> string \<Rightarrow> world \<Rightarrow> (error + FileInfo) \<times> world" where
  "Lstat r commit path st =
     (case checkSpecArgSafety r commit of
        Some msg \<Rightarrow> (Inl (UnsafeArgumentError msg), st)
      | None \<Rightarrow>
          let path = Clean (Rel r path) in
          if path = ''.''
          then (Inr \<lparr>Name' = [], Mode' = ModeDir, Size' = 0, Sys' = None\<rparr>, st)
          else
            (case lsTree r commit path False st of
               (Inl e, st') \<Rightarrow> (Inl e, st')
             | (Inr fis, st') \<Rightarrow>
                 if length fis = 0 then (Inl (PathErrorNotExist ''ls-tree'' path), st')
                 else (Inr (fis ! 0), st')))"

definition Stat :: "Repository \<Rightarrow> string \<Rightarrow> string \<Rightarrow> world \<Rightarrow> (error + FileInfo) \<times> world" where
  "Stat r commit path st =
     (case checkSpecArgSafety r commit of
        Some msg \<Rightarrow> (Inl (UnsafeArgumentError msg), st)
      | None \<Rightarrow>
          let path = Rel r path in
          (case Lstat r commit path st of
             (Inl e, st1) \<Rightarrow> (Inl e, st1)
           | (Inr fi, st1) \<Rightarrow>
               if Mode' fi AND ModeSymlink \<noteq> 0 then
                 (let (b, runs) = readFileBytes r commit path;
                      st2 = logged st1 runs
                  in
                  (case b of
                     Inl e \<Rightarrow> (Inl e, st2)
                   | Inr target \<Rightarrow>
                       (case Lstat r commit target st2 of
                          (Inl e, st3) \<Rightarrow> (Inl e, st3)
                        | (Inr fi2, st3) \<Rightarrow> (Inr (fi2\<lparr>Name' := Name' fi\<rparr>), st3))))
               else (Inr fi, st1)))"

definition ReadDir :: "Repository \<Rightarrow> string \<Rightarrow> string \<Rightarrow> bool \<Rightarrow> world
    \<Rightarrow> (error + FileInfo list) \<times> world" where
  "ReadDir r commit path recurse st =
     (case checkSpecArgSafety r commit of
        Some msg \<Rightarrow> (Inl (UnsafeArgumentError msg), st)
      | None \<Rightarrow>
          let path = (if path \<noteq> [] then Clean (Rel r path) @ ''/'' else path)
          in lsTree r commit path recurse st)"

section \<open>Notions used to state the properties\<close>

text \<open>The outcome of a list of steps run in order: the values of all of them, or the
  error of the first that fails. This is the result of the loop, seen from outside.\<close>

fun outcomes :: "('x + 'v) list \<Rightarrow> 'x + 'v list" where
  "outcomes [] = Inr []"
| "outcomes (Inl e # steps) = Inl e"
| "outcomes (Inr v # steps) =
     (case outcomes steps of Inl e \<Rightarrow> Inl e | Inr vs \<Rightarrow> Inr (v # vs))"

text \<open>The path of a record: everything after its first tab. The name an entry gets from
  its record, for the trimmed query path and the length of its directory prefix.\<close>

definition afterTab :: "string \<Rightarrow> string" where
  "afterTab line = drop (Suc (length (takeWhile (\<lambda>c. c \<noteq> TAB) line))) line"

definition entryName :: "string \<Rightarrow> nat \<Rightarrow> string \<Rightarrow> string" where
  "entryName trimPath prefixLen line =
     (if length (afterTab line) < length trimPath then drop prefixLen trimPath
      else drop prefixLen (afterTab line))"

text \<open>The local variables \<^verbatim>\<open>trimPath\<close> and \<^verbatim>\<open>prefixLen\<close> of \<^verbatim>\<open>lsTreeUncached\<close>, as functions of
  the path it is given.\<close>

definition trimPathOf :: "string \<Rightarrow> string" where
  "trimPathOf path = TrimPrefix path ''./''"

definition prefixLenOf :: "string \<Rightarrow> nat" where
  "prefixLenOf path = nat (LastIndexByte (trimPathOf path) (CHR ''/'') + 1)"

text \<open>The path that \<open>ReadDir\<close> passes on: a non-empty path is made relative, cleaned and
  given a trailing slash.\<close>

definition listedPath :: "Repository \<Rightarrow> string \<Rightarrow> string" where
  "listedPath r path = (if path \<noteq> [] then Clean (Rel r path) @ ''/'' else path)"



text \<open>The commit of a cache key of the repository \<open>r\<close> for the root path (the key is
  \<open>repoURI:commit:\<close>). A cache is consistent with \<open>r\<close> when each of its entries under such a
  key is the successful result of the uncached recursive root listing of that commit.\<close>

definition keyCommit :: "Repository \<Rightarrow> string \<Rightarrow> string option" where
  "keyCommit r key =
     (let pre = repoURI r @ '':''
      in if HasPrefix key pre \<and> length pre < length key \<and> last key = CHR '':''
         then Some (butlast (drop (length pre) key)) else None)"

definition cacheConsistent :: "Repository \<Rightarrow> (string \<times> FileInfo list) list \<Rightarrow> bool" where
  "cacheConsistent r c =
     list_all (\<lambda>kv. case keyCommit r (fst kv) of
                       None \<Rightarrow> True
                     | Some commit \<Rightarrow> fst (lsTreeUncached r commit [] True) = Inr (snd kv)) c"

text \<open>The state of a process that has run nothing yet.\<close>

definition initWorld :: world where
  "initWorld = \<lparr>lsTreeRootCache = [], invocations = []\<rparr>"

text \<open>The states the process reaches from its start by calls of the three operations on
  \<open>r\<close>.\<close>

inductive reachable :: "Repository \<Rightarrow> world \<Rightarrow> bool" for r :: Repository where
  start: "reachable r initWorld"
| lstat: "reachable r st \<Longrightarrow> reachable r (snd (Lstat r commit path st))"
| stat: "reachable r st \<Longrightarrow> reachable r (snd (Stat r commit path st))"
| readDir: "reachable r st \<Longrightarrow> reachable r (snd (ReadDir r commit path recurse st))"

section \<open>Example repositories\<close>

text \<open>Concrete values for the parameters, on which the theorems below are run: a guard
  that rejects what begins with a dash, object ids of forty hexadecimal digits, the path
  made relative by dropping its leading slash, and the submodule mode of git (\<open>0160000\<close>
  octal). The subprocess and \<^verbatim>\<open>readFileBytes\<close> vary with the example.\<close>

definition dashGuard :: "string \<Rightarrow> string option" where
  "dashGuard s = (if HasPrefix s ''-'' then Some (''invalid git revision spec: '' @ s) else None)"

definition hexRevision :: "string \<Rightarrow> bool" where
  "hexRevision s =
     (length s = 40 \<and> list_all (\<lambda>c. case digitVal c of None \<Rightarrow> False | Some d \<Rightarrow> d < 16) s)"

definition stripSlash :: "string \<Rightarrow> string" where
  "stripSlash p = (if p = ''/'' then ''.'' else TrimPrefix p ''/'')"

definition exampleRepo :: "(string list \<Rightarrow> string \<times> string option)
    \<Rightarrow> (string \<Rightarrow> string \<Rightarrow> (error + string) \<times> string list list) \<Rightarrow> Repository" where
  "exampleRepo git cat =
     \<lparr>repoURI = ''github.com/a/b'', checkSpecArgSafety = dashGuard,
      ensureAbsCommit = (\<lambda>commit. None), IsAbsoluteRevision = hexRevision,
      Rel = stripSlash, ModeSubmodule = 57344, CombinedOutput = git,
      Output = (\<lambda>argv. ([], Some ''exit status 1'')), readFileBytes = cat,
      elapsed = (\<lambda>runs. 0)\<rparr>"

definition noGit :: "string list \<Rightarrow> string \<times> string option" where
  "noGit argv = ([], Some ''exit status 128'')"

definition noCat :: "string \<Rightarrow> string \<Rightarrow> (error + string) \<times> string list list" where
  "noCat commit path = (Inl (OtherError ''no such object''), [])"

definition exampleOid :: string where
  "exampleOid = ''e69de29bb2d1d6434b8b29ae775ad8c2e48c5391''"

text \<open>A subprocess that exits successfully and prints \<open>out\<close>, whatever it is given.\<close>

definition gitWith :: "string \<Rightarrow> string list \<Rightarrow> string \<times> string option" where
  "gitWith out argv = (out, None)"


text \<open>The listing of the root of a repository that holds the directory \<open>a\<close> and the
  ten-byte file \<open>a/b.txt\<close>, the file reported first.\<close>

definition fileRecord :: string where
  "fileRecord = ''100644 blob '' @ exampleOid @ ''      10'' @ [TAB] @ ''a/b.txt''"

definition dirRecord :: string where
  "dirRecord = ''040000 tree '' @ exampleOid @ ''       -'' @ [TAB] @ ''a''"

definition listingBody :: string where
  "listingBody = fileRecord @ [NUL] @ dirRecord"

definition listingRepo :: Repository where
  "listingRepo = exampleRepo (gitWith (listingBody @ [NUL])) noCat"

definition fileEntry :: FileInfo where
  "fileEntry = \<lparr>Name' = ''a/b.txt'', Mode' = 33188, Size' = 10, Sys' = None\<rparr>"

definition dirEntry :: FileInfo where
  "dirEntry = \<lparr>Name' = ''a'', Mode' = 2147500032, Size' = 0, Sys' = None\<rparr>"

text \<open>A state whose cache holds the root listing of the example repository.\<close>

definition warmWorld :: world where
  "warmWorld =
     \<lparr>lsTreeRootCache = [(cacheKey listingRepo exampleOid [], [dirEntry, fileEntry])],
      invocations = []\<rparr>"

text \<open>A repository in which \<open>sub\<close> is a submodule: asked for \<open>sub/file\<close>, git reports the
  submodule itself.\<close>

definition submoduleRecord :: string where
  "submoduleRecord = ''160000 commit '' @ exampleOid @ ''       -'' @ [TAB] @ ''sub''"

definition submoduleRepo :: Repository where
  "submoduleRepo = exampleRepo (gitWith (submoduleRecord @ [NUL])) noCat"

definition submoduleEntry :: FileInfo where
  "submoduleEntry =
     \<lparr>Name' = ''file'', Mode' = 57344, Size' = 0,
      Sys' = Some \<lparr>URL = [], CommitID = exampleOid\<rparr>\<rparr>"

text \<open>A repository whose tree reports the same path twice.\<close>

definition duplicateRepo :: Repository where
  "duplicateRepo = exampleRepo (gitWith (fileRecord @ [NUL] @ fileRecord @ [NUL])) noCat"

text \<open>Three subprocesses: one killed before it prints anything, one that reports a path
  that exists on disk but not in the commit, and one that exits successfully with output
  that holds no NUL byte.\<close>

definition killedRepo :: Repository where
  "killedRepo = exampleRepo (\<lambda>argv. ([], Some ''signal: killed'')) noCat"

definition missingRepo :: Repository where
  "missingRepo =
     exampleRepo (\<lambda>argv. (''fatal: Path a exists on disk, but not in the commit'',
                          Some ''exit status 128'')) noCat"

definition unterminatedRepo :: Repository where
  "unterminatedRepo = exampleRepo (gitWith ''warning'') noCat"



text \<open>A repository with a chain of symbolic links: \<open>link\<close> points to \<open>link2\<close>, which points
  to the ten-byte file \<open>target\<close>. The subprocess answers by the path it is asked for (its last
  argument); the content of a link is its target.\<close>

definition chainGit :: "string list \<Rightarrow> string \<times> string option" where
  "chainGit argv =
     (if last argv = ''link'' \<or> last argv = ''link2''
      then (''120000 blob '' @ exampleOid @ ''       6'' @ [TAB] @ last argv @ [NUL], None)
      else if last argv = ''target''
      then (''100644 blob '' @ exampleOid @ ''      10'' @ [TAB] @ ''target'' @ [NUL], None)
      else ([], None))"

definition chainCat :: "string \<Rightarrow> string \<Rightarrow> (error + string) \<times> string list list" where
  "chainCat commit path =
     (if path = ''link'' then (Inr ''link2'', [[''git'', ''show'', commit @ '':'' @ path]])
      else if path = ''link2'' then (Inr ''target'', [[''git'', ''show'', commit @ '':'' @ path]])
      else (Inl (OtherError ''not a link''), [[''git'', ''show'', commit @ '':'' @ path]]))"

definition chainRepo :: Repository where
  "chainRepo = exampleRepo chainGit chainCat"

definition linkEntry :: "string \<Rightarrow> FileInfo" where
  "linkEntry name = \<lparr>Name' = name, Mode' = ModeSymlink, Size' = 6, Sys' = None\<rparr>"

definition targetEntry :: FileInfo where
  "targetEntry = \<lparr>Name' = ''target'', Mode' = 33188, Size' = 10, Sys' = None\<rparr>"

section \<open>Basic facts\<close>

lemma outcomes_Inr: "outcomes xs = Inr vs \<Longrightarrow> xs = map Inr vs"
  by (induction xs arbitrary: vs rule: outcomes.induct) (auto split: sum.splits)

lemma outcomes_Inl: "outcomes xs = Inl e \<Longrightarrow> Inl e \<in> set xs"
  by (induction xs rule: outcomes.induct) (auto split: sum.splits)


lemma takeWhile_neq_app [simp]: "c \<notin> set a \<Longrightarrow> takeWhile (\<lambda>x. x \<noteq> c) (a @ c # b) = a"
  by (induction a) auto

lemma dropWhile_neq_app [simp]: "c \<notin> set a \<Longrightarrow> dropWhile (\<lambda>x. x \<noteq> c) (a @ c # b) = c # b"
  by (induction a) auto

lemma takeWhile_neq_rev [simp]:
  "c \<notin> set b \<Longrightarrow> takeWhile (\<lambda>x. x \<noteq> c) (rev b @ c # a) = rev b"
  using takeWhile_neq_app [of c "rev b" a] by simp

lemma lsTreeLoop_Cons:
  "rest \<noteq> [] \<Longrightarrow> lsTreeLoop r out tp pl (line # rest) =
     (case lsTreeEntry r out tp pl line of
        (Inl e, runs) \<Rightarrow> (Inl e, runs)
      | (Inr fi, runs) \<Rightarrow>
          (case lsTreeLoop r out tp pl rest of
             (Inl e, runs') \<Rightarrow> (Inl e, runs @ runs')
           | (Inr fis, runs') \<Rightarrow> (Inr (fi # fis), runs @ runs')))"
  by (cases rest) auto

lemma fst_lsTreeLoop_snoc:
  "fst (lsTreeLoop r out tp pl (recs @ [l])) =
     outcomes (map (\<lambda>l. fst (lsTreeEntry r out tp pl l)) recs)"
proof (induction recs)
  case Nil
  show ?case by simp
next
  case (Cons x recs)
  obtain res runs where e: "lsTreeEntry r out tp pl x = (res, runs)"
    by (cases "lsTreeEntry r out tp pl x")
  obtain res' runs' where l: "lsTreeLoop r out tp pl (recs @ [l]) = (res', runs')"
    by (cases "lsTreeLoop r out tp pl (recs @ [l])")
  have ih: "outcomes (map (\<lambda>l. fst (lsTreeEntry r out tp pl l)) recs) = res'"
    using Cons.IH l by simp
  show ?case
    by (cases res; cases res') (simp_all add: lsTreeLoop_Cons e l ih)
qed

lemma fst_lsTreeLoop:
  assumes "lines \<noteq> []"
  shows "fst (lsTreeLoop r out tp pl lines) =
     outcomes (map (\<lambda>l. fst (lsTreeEntry r out tp pl l)) (butlast lines))"
  using fst_lsTreeLoop_snoc [of r out tp pl "butlast lines" "last lines"] assms by simp

lemma IndexByte_absent: "c \<notin> set s \<Longrightarrow> IndexByte s c = - 1"
  by (simp add: IndexByte_def)

lemma IndexByte_first: "c \<notin> set a \<Longrightarrow> IndexByte (a @ c # b) c = int (length a)"
  by (simp add: IndexByte_def)

lemma IndexByte_present: "c \<in> set s \<Longrightarrow> IndexByte s c = int (length (takeWhile (\<lambda>x. x \<noteq> c) s))"
  by (simp add: IndexByte_def)

lemma LastIndexByte_bound: "nat (LastIndexByte s c + 1) \<le> length s"
  by (simp add: LastIndexByte_def nat_le_iff)

lemma LastIndexByte_absent: "c \<notin> set s \<Longrightarrow> nat (LastIndexByte s c + 1) = 0"
  by (simp add: LastIndexByte_def)

lemma LastIndexByte_last: "c \<notin> set b \<Longrightarrow> nat (LastIndexByte (a @ c # b) c + 1) = Suc (length a)"
  by (simp add: LastIndexByte_def)

lemma length_Split: "length (Split s sep) = Suc (length (filter (\<lambda>c. c = sep) s))"
  by (induction s) (auto split: list.splits)

lemma Split_nonempty [simp]: "Split s sep \<noteq> []"
  using length_Split [of s sep] by auto

lemma Split_snoc_sep: "Split (s @ [sep]) sep = Split s sep @ [[]]"
  by (induction s) (auto split: list.splits)

lemma Split_no_sep: "l \<in> set (Split s sep) \<Longrightarrow> sep \<notin> set l"
  by (induction s arbitrary: l) (auto split: list.splits if_splits)

lemma SplitN_four:
  assumes "sep \<notin> set a" "sep \<notin> set b" "sep \<notin> set c"
  shows "SplitN (a @ sep # b @ sep # c @ sep # d) sep 4 = [a, b, c, d]"
  using assms by (simp add: numeral_eq_Suc)


lemma afterTab_app [simp]: "TAB \<notin> set meta \<Longrightarrow> afterTab (meta @ TAB # p) = p"
  by (simp add: afterTab_def)

lemma lsTreeEntry_no_tab:
  "TAB \<notin> set line \<Longrightarrow> lsTreeEntry r out tp pl line = (Inl (InvalidOutput out), [])"
  by (simp add: lsTreeEntry_def IndexByte_absent)

lemma lsTreeEntry_tab:
  assumes "TAB \<notin> set meta"
  shows "lsTreeEntry r out tp pl (meta @ TAB # p) =
     (let info = SplitN meta SP 4;
          name = (if length p < length tp then tp else p)
      in
      if length info \<noteq> 4 then (Inl (InvalidOutput out), [])
      else if \<not> IsAbsoluteRevision r (info ! 2) then (Inl (InvalidOid (info ! 2)), [])
      else
        (case parseSize (TrimSpace (info ! 3)) of
           Inl e \<Rightarrow> (Inl e, [])
         | Inr sz \<Rightarrow>
             (case ParseInt (info ! 0) 8 32 of
                Inl e \<Rightarrow> (Inl (NumError (info ! 0) e), [])
              | Inr mode0 \<Rightarrow>
                  (case translateMode r (info ! 1) (info ! 2) name mode0 of
                     ((mode, sys), runs) \<Rightarrow>
                       if length name < pl
                       then (Inl (Panic ''slice bounds out of range''), runs)
                       else (Inr \<lparr>Name' = drop pl name, Mode' = word_of_int mode,
                                  Size' = sz, Sys' = sys\<rparr>, runs)))))"
proof -
  have tab: "IndexByte (meta @ TAB # p) TAB = int (length meta)"
    using assms by (rule IndexByte_first)
  then have eqs:
      "take (nat (IndexByte (meta @ TAB # p) TAB)) (meta @ TAB # p) = meta"
      "drop (nat (IndexByte (meta @ TAB # p) TAB) + 1) (meta @ TAB # p) = p"
    by simp_all
  show ?thesis
    unfolding lsTreeEntry_def Let_def eqs by (simp add: tab)
qed

lemma split_at_tab:
  assumes "TAB \<in> set line"
  obtains meta p where "line = meta @ TAB # p" "TAB \<notin> set meta"
  using assms by (meson split_list_first)

lemma parseSize_error: "parseSize s = Inl e \<Longrightarrow> isMalformedOutput e"
  by (auto simp: parseSize_def isMalformedOutput_def split: if_splits sum.splits)

lemma lsTreeEntry_error:
  assumes "fst (lsTreeEntry r out tp pl line) = Inl e" "pl \<le> length tp"
  shows "isMalformedOutput e"
proof (cases "TAB \<in> set line")
  case False
  with assms show ?thesis
    by (auto simp: lsTreeEntry_no_tab isMalformedOutput_def)
next
  case True
  then obtain meta p where line: "line = meta @ TAB # p" "TAB \<notin> set meta"
    by (rule split_at_tab)
  show ?thesis
    using assms parseSize_error
    unfolding line lsTreeEntry_tab [OF line(2)]
    by (auto simp: Let_def isMalformedOutput_def split: if_splits sum.splits prod.splits)
qed

lemma lsTreeEntry_name:
  assumes "fst (lsTreeEntry r out tp pl line) = Inr fi"
  shows "TAB \<in> set line \<and> Name' fi = entryName tp pl line"
proof (cases "TAB \<in> set line")
  case False
  with assms show ?thesis
    by (simp add: lsTreeEntry_no_tab)
next
  case True
  then obtain meta p where line: "line = meta @ TAB # p" "TAB \<notin> set meta"
    by (rule split_at_tab)
  show ?thesis
    using assms line(2)
    unfolding line lsTreeEntry_tab [OF line(2)]
    by (auto simp: Let_def entryName_def split: if_splits sum.splits prod.splits)
qed

lemma lsTreeEntry_fields:
  assumes "SP \<notin> set f0" "SP \<notin> set f1" "SP \<notin> set f2"
    and "TAB \<notin> set f0" "TAB \<notin> set f1" "TAB \<notin> set f2" "TAB \<notin> set f3"
  shows "lsTreeEntry r out tp pl (f0 @ SP # f1 @ SP # f2 @ SP # f3 @ TAB # p) =
     (let name = (if length p < length tp then tp else p)
      in
      if \<not> IsAbsoluteRevision r f2 then (Inl (InvalidOid f2), [])
      else
        (case parseSize (TrimSpace f3) of
           Inl e \<Rightarrow> (Inl e, [])
         | Inr sz \<Rightarrow>
             (case ParseInt f0 8 32 of
                Inl e \<Rightarrow> (Inl (NumError f0 e), [])
              | Inr mode0 \<Rightarrow>
                  (case translateMode r f1 f2 name mode0 of
                     ((mode, sys), runs) \<Rightarrow>
                       if length name < pl
                       then (Inl (Panic ''slice bounds out of range''), runs)
                       else (Inr \<lparr>Name' = drop pl name, Mode' = word_of_int mode,
                                  Size' = sz, Sys' = sys\<rparr>, runs)))))"
proof -
  have tab: "TAB \<notin> set (f0 @ SP # f1 @ SP # f2 @ SP # f3)"
    using assms by simp
  have info: "SplitN (f0 @ SP # f1 @ SP # f2 @ SP # f3) SP 4 = [f0, f1, f2, f3]"
    using assms by (simp add: SplitN_four)
  have nths: "[f0, f1, f2, f3] ! 0 = f0" "[f0, f1, f2, f3] ! 1 = f1"
      "[f0, f1, f2, f3] ! 2 = f2" "[f0, f1, f2, f3] ! 3 = f3" "length [f0, f1, f2, f3] = 4"
    by (simp_all add: numeral_2_eq_2 numeral_3_eq_3)
  show ?thesis
    using lsTreeEntry_tab [OF tab, of r out tp pl p]
    unfolding info Let_def nths by simp
qed

lemma word_of_int_or_ModeDir:
  "(word_of_int (mode OR uint ModeDir) :: 32 word) = word_of_int mode OR ModeDir"
  by (metis word_of_int_uint word_wi_log_defs(3))

lemma small_int_no_high_bit:
  assumes "0 \<le> z" "z < 2 ^ 16" "16 \<le> n"
  shows "(word_of_int z :: 32 word) AND 2 ^ n = 0"
proof -
  have "(2::int) ^ 16 \<le> 2 ^ n"
    using assms(3) by (intro power_increasing) simp_all
  then have "z div 2 ^ n = 0"
    using assms by (simp add: div_pos_pos_trivial)
  then have "\<not> bit z n"
    by (simp add: bit_iff_odd)
  then have "\<not> bit (word_of_int z :: 32 word) n"
    by (simp add: bit_word_of_int_iff)
  then show ?thesis
    by (simp add: and_exp_eq_0_iff_not_bit)
qed

lemma small_mode_no_type_bits:
  assumes "0 \<le> mode" "mode < 2 ^ 16"
  shows "(word_of_int (mode OR 420) :: 32 word) AND ModeSymlink = 0 \<and>
         (word_of_int (mode OR 420) :: 32 word) AND ModeDir = 0"
proof -
  have "0 \<le> mode OR 420" "mode OR 420 < 2 ^ 16"
    using assms OR_upper [of mode 16 420] by simp_all
  then have "(word_of_int (mode OR 420) :: 32 word) AND 2 ^ 27 = 0"
      "(word_of_int (mode OR 420) :: 32 word) AND 2 ^ 31 = 0"
    by (rule small_int_no_high_bit; simp)+
  then show ?thesis
    unfolding ModeSymlink_def ModeDir_def by (rule conjI)
qed








lemma prefixLenOf_bound: "prefixLenOf path \<le> length (trimPathOf path)"
  by (simp add: prefixLenOf_def LastIndexByte_bound)

lemma fst_lsTreeUncached:
  assumes "ensureAbsCommit r commit = None" "checkSpecArgSafety r path = None"
    and "CombinedOutput r (''git'' # lsTreeArgs commit path recurse) = (out, None)"
    and "out \<noteq> []"
  shows "fst (lsTreeUncached r commit path recurse) =
     (case outcomes (map (\<lambda>l. fst (lsTreeEntry r out (trimPathOf path) (prefixLenOf path) l))
                      (butlast (Split out NUL))) of
        Inl e \<Rightarrow> Inl e
      | Inr fis \<Rightarrow> Inr (SortFileInfosByName fis))"
  unfolding trimPathOf_def prefixLenOf_def
proof -
  let ?tp = "TrimPrefix path ''./''"
  let ?pl = "nat (LastIndexByte ?tp (CHR ''/'') + 1)"
  obtain res runs where l: "lsTreeLoop r out ?tp ?pl (Split out NUL) = (res, runs)"
    by (cases "lsTreeLoop r out ?tp ?pl (Split out NUL)")
  have seq: "outcomes (map (\<lambda>l. fst (lsTreeEntry r out ?tp ?pl l)) (butlast (Split out NUL))) = res"
    using fst_lsTreeLoop [of "Split out NUL" r out ?tp ?pl] l by simp
  show "fst (lsTreeUncached r commit path recurse) =
     (case outcomes (map (\<lambda>l. fst (lsTreeEntry r out ?tp ?pl l)) (butlast (Split out NUL))) of
        Inl e \<Rightarrow> Inl e
      | Inr fis \<Rightarrow> Inr (SortFileInfosByName fis))"
    unfolding seq using assms
    by (cases res) (simp_all add: lsTreeUncached_def Let_def l)
qed





lemma Split_join:
  "concat (map (\<lambda>l. l @ [sep]) (butlast (Split s sep))) @ last (Split s sep) = s"
proof (induction s)
  case Nil
  show ?case by simp
next
  case (Cons c s)
  obtain piece pieces where sp: "Split s sep = piece # pieces"
    by (cases "Split s sep") simp_all
  show ?case
    using Cons sp by (cases pieces) (auto split: if_splits)
qed

lemma Split_terminated:
  "\<exists>recs. Split (body @ [sep]) sep = recs @ [[]] \<and>
     body @ [sep] = concat (map (\<lambda>l. l @ [sep]) recs) \<and> (\<forall>l \<in> set recs. sep \<notin> set l)"
proof -
  let ?recs = "Split body sep"
  have s: "Split (body @ [sep]) sep = ?recs @ [[]]"
    by (rule Split_snoc_sep)
  have "concat (map (\<lambda>l. l @ [sep]) ?recs) = body @ [sep]"
    using Split_join [of sep "body @ [sep]"] unfolding s by simp
  moreover have "\<forall>l \<in> set ?recs. sep \<notin> set l"
    using Split_no_sep by blast
  ultimately show ?thesis
    using s by metis
qed

lemma lsTreeUncached_empty:
  assumes "ensureAbsCommit r commit = None" "checkSpecArgSafety r path = None"
    and "CombinedOutput r (''git'' # lsTreeArgs commit path recurse) = ([], None)"
  shows "fst (lsTreeUncached r commit path recurse) = Inl (PathErrorNotExist ''git ls-tree'' path)"
  using assms by (simp add: lsTreeUncached_def)

lemma lsTreeUncached_Inr:
  assumes "ensureAbsCommit r commit = None" "checkSpecArgSafety r path = None"
    and "CombinedOutput r (''git'' # lsTreeArgs commit path recurse) = (out, None)"
    and "fst (lsTreeUncached r commit path recurse) = Inr fis"
  shows "\<exists>es. map (\<lambda>l. fst (lsTreeEntry r out (trimPathOf path) (prefixLenOf path) l))
               (butlast (Split out NUL)) = map Inr es \<and>
              fis = SortFileInfosByName es"
proof -
  let ?entry = "\<lambda>l. fst (lsTreeEntry r out (trimPathOf path) (prefixLenOf path) l)"
  have out: "out \<noteq> []"
    using assms lsTreeUncached_empty [of r commit path recurse] by auto
  obtain es where es: "outcomes (map ?entry (butlast (Split out NUL))) = Inr es"
      "fis = SortFileInfosByName es"
    using fst_lsTreeUncached [OF assms(1-3) out] assms(4)
    by (cases "outcomes (map ?entry (butlast (Split out NUL)))") simp_all
  from outcomes_Inr [OF es(1)] es(2) show ?thesis
    by blast
qed

lemma map_Inr_nth:
  assumes "map f xs = map Inr es"
  shows "length es = length xs \<and> (\<forall>i<length xs. f (xs ! i) = Inr (es ! i))"
proof -
  have len: "length es = length xs"
    using assms by (metis length_map)
  moreover have "f (xs ! i) = Inr (es ! i)" if "i < length xs" for i
    using assms that len by (metis nth_map)
  ultimately show ?thesis
    by blast
qed

lemma entry_names:
  assumes "map (\<lambda>l. fst (lsTreeEntry r out tp pl l)) recs = map Inr es"
  shows "map Name' es = map (entryName tp pl) recs"
proof (rule nth_equalityI)
  show "length (map Name' es) = length (map (entryName tp pl) recs)"
    using map_Inr_nth [OF assms] by simp
next
  fix i
  assume "i < length (map Name' es)"
  then have i: "i < length recs"
    using map_Inr_nth [OF assms] by simp
  then have "fst (lsTreeEntry r out tp pl (recs ! i)) = Inr (es ! i)"
    using map_Inr_nth [OF assms] by simp
  then have "Name' (es ! i) = entryName tp pl (recs ! i)"
    using lsTreeEntry_name by blast
  then show "map Name' es ! i = map (entryName tp pl) recs ! i"
    using i map_Inr_nth [OF assms] by simp
qed

lemma sorted_names: "sorted (map Name' (SortFileInfosByName es))"
  by (simp add: SortFileInfosByName_def)


lemma names_sorted_eq:
  "map Name' (SortFileInfosByName es) = sort (map Name' es)"
proof -
  have "sort (map Name' es) = map Name' (SortFileInfosByName es)"
  proof (rule properties_for_sort)
    show "mset (map Name' (SortFileInfosByName es)) = mset (map Name' es)"
      by (simp add: SortFileInfosByName_def)
    show "sorted (map Name' (SortFileInfosByName es))"
      by (rule sorted_names)
  qed
  then show ?thesis
    by simp
qed


lemma listingRepo_root: "fst (lsTreeUncached listingRepo exampleOid [] True) = Inr [dirEntry, fileEntry]"
  by code_simp

lemma entryName_root: "entryName (trimPathOf []) (prefixLenOf []) line = afterTab line"
  by (simp add: entryName_def trimPathOf_def prefixLenOf_def TrimPrefix_def HasPrefix_def
      LastIndexByte_def)

lemma entryName_no_slash:
  assumes "CHR ''/'' \<notin> set (trimPathOf path)"
  shows "entryName (trimPathOf path) (prefixLenOf path) line =
     (if length (afterTab line) < length (trimPathOf path) then trimPathOf path
      else afterTab line)"
  using assms by (simp add: entryName_def prefixLenOf_def LastIndexByte_absent)

lemma entryName_slash:
  assumes "trimPathOf path = dir @ ''/'' @ base" "CHR ''/'' \<notin> set base"
  shows "entryName (trimPathOf path) (prefixLenOf path) line =
     (if length (afterTab line) < length (trimPathOf path) then base
      else drop (Suc (length dir)) (afterTab line))"
proof -
  have "prefixLenOf path = Suc (length dir)"
    using assms LastIndexByte_last [of "CHR ''/''" base dir] by (simp add: prefixLenOf_def)
  then show ?thesis
    using assms(1) by (simp add: entryName_def)
qed

lemma lsTreeUncached_names:
  assumes "ensureAbsCommit r commit = None" "checkSpecArgSafety r path = None"
    and "CombinedOutput r (''git'' # lsTreeArgs commit path recurse) = (out, None)"
    and "fst (lsTreeUncached r commit path recurse) = Inr fis"
  shows "map Name' fis =
     sort (map (entryName (trimPathOf path) (prefixLenOf path)) (butlast (Split out NUL)))"
proof -
  obtain es where es:
      "map (\<lambda>l. fst (lsTreeEntry r out (trimPathOf path) (prefixLenOf path) l))
         (butlast (Split out NUL)) = map Inr es"
      "fis = SortFileInfosByName es"
    using lsTreeUncached_Inr [OF assms] by blast
  show ?thesis
    unfolding es(2) names_sorted_eq entry_names [OF es(1)] by (rule refl)
qed

lemma submoduleRepo_run:
  "ensureAbsCommit submoduleRepo commit = None"
  "checkSpecArgSafety submoduleRepo ''sub/file'' = None"
  "CombinedOutput submoduleRepo argv = (submoduleRecord @ [NUL], None)"
  by (simp_all add: submoduleRepo_def exampleRepo_def gitWith_def dashGuard_def HasPrefix_def)

lemma submoduleRepo_file:
  "fst (lsTreeUncached submoduleRepo exampleOid ''sub/file'' False) = Inr [submoduleEntry]"
  by code_simp

lemma keyCommit_cacheKey: "keyCommit r (cacheKey r commit []) = Some commit"
  by (simp add: keyCommit_def cacheKey_def HasPrefix_def)

lemma cacheConsistentD:
  assumes "cacheConsistent r c" "(cacheKey r commit [], v) \<in> set c"
  shows "fst (lsTreeUncached r commit [] True) = Inr v"
  using assms by (auto simp: cacheConsistent_def list_all_iff keyCommit_cacheKey)

lemma cacheConsistent_subset:
  assumes "cacheConsistent r c" "set c' \<subseteq> set c"
  shows "cacheConsistent r c'"
  using assms unfolding cacheConsistent_def list_all_iff by blast

lemma cacheConsistent_Cons:
  assumes "cacheConsistent r c" "fst (lsTreeUncached r commit [] True) = Inr v"
  shows "cacheConsistent r ((cacheKey r commit [], v) # c)"
  using assms by (simp add: cacheConsistent_def keyCommit_cacheKey)

lemma set_butlast_subset: "set (butlast xs) \<subseteq> set xs"
  by (metis in_set_butlastD subsetI)

lemma cacheConsistent_lruGet:
  assumes "cacheConsistent r c"
  shows "cacheConsistent r (snd (lruGet c k))"
proof (cases "map_of c k")
  case None
  with assms show ?thesis by (simp add: lruGet_def)
next
  case (Some v)
  then have "set (snd (lruGet c k)) \<subseteq> set c"
    by (auto simp: lruGet_def dest: map_of_SomeD)
  with assms show ?thesis by (rule cacheConsistent_subset)
qed

lemma cacheConsistent_lruAdd:
  assumes "cacheConsistent r c" "fst (lsTreeUncached r commit [] True) = Inr v"
  shows "cacheConsistent r (lruAdd c (cacheKey r commit []) v)"
proof -
  let ?c = "(cacheKey r commit [], v) # filter (\<lambda>kv. fst kv \<noteq> cacheKey r commit []) c"
  have "cacheConsistent r (filter (\<lambda>kv. fst kv \<noteq> cacheKey r commit []) c)"
    using assms(1) by (rule cacheConsistent_subset) simp
  then have full: "cacheConsistent r ?c"
    using assms(2) by (rule cacheConsistent_Cons)
  then have "cacheConsistent r (butlast ?c)"
    using set_butlast_subset by (rule cacheConsistent_subset)
  with full show ?thesis
    by (simp add: lruAdd_def Let_def del: butlast.simps)
qed

lemma lsTree_bypass:
  assumes "path \<noteq> [] \<or> \<not> recurse"
  shows "lsTree r commit path recurse st =
     (fst (lsTreeUncached r commit path recurse), logged st (snd (lsTreeUncached r commit path recurse)))"
  using assms by (auto simp: lsTree_def split: prod.splits)

lemma lsTree_hit:
  assumes "map_of (lsTreeRootCache st) (cacheKey r commit []) = Some v"
  shows "lsTree r commit [] True st =
     (Inr v, st\<lparr>lsTreeRootCache := snd (lruGet (lsTreeRootCache st) (cacheKey r commit []))\<rparr>)"
  using assms by (simp add: lsTree_def lruGet_def Let_def)

lemma lsTree_miss:
  assumes "map_of (lsTreeRootCache st) (cacheKey r commit []) = None"
  shows "fst (lsTree r commit [] True st) = fst (lsTreeUncached r commit [] True) \<and>
         lsTreeRootCache (snd (lsTree r commit [] True st)) =
           (case fst (lsTreeUncached r commit [] True) of
              Inl e \<Rightarrow> lsTreeRootCache st
            | Inr entries \<Rightarrow>
                if 500 < elapsed r (invocations st @ snd (lsTreeUncached r commit [] True)) \<and>
                   5000 < length entries
                then lruAdd (lsTreeRootCache st) (cacheKey r commit []) entries
                else lsTreeRootCache st) \<and>
         invocations (snd (lsTree r commit [] True st)) =
           invocations st @ snd (lsTreeUncached r commit [] True)"
proof -
  obtain res runs where u: "lsTreeUncached r commit [] True = (res, runs)"
    by (cases "lsTreeUncached r commit [] True")
  show ?thesis
    using assms u by (cases res) (simp_all add: lsTree_def lruGet_def logged_def Let_def)
qed

lemma lsTree_result:
  assumes "cacheConsistent r (lsTreeRootCache st)"
  shows "fst (lsTree r commit path recurse st) = fst (lsTreeUncached r commit path recurse)"
proof (cases "path \<noteq> [] \<or> \<not> recurse")
  case True
  then show ?thesis by (simp add: lsTree_bypass)
next
  case False
  then have root: "path = []" "recurse" by simp_all
  show ?thesis
  proof (cases "map_of (lsTreeRootCache st) (cacheKey r commit [])")
    case None
    then show ?thesis using lsTree_miss root by simp
  next
    case (Some v)
    then have "(cacheKey r commit [], v) \<in> set (lsTreeRootCache st)"
      by (rule map_of_SomeD)
    with assms have "fst (lsTreeUncached r commit [] True) = Inr v"
      by (rule cacheConsistentD)
    then show ?thesis using lsTree_hit [OF Some] root by simp
  qed
qed

lemma lsTree_consistent:
  assumes "cacheConsistent r (lsTreeRootCache st)"
  shows "cacheConsistent r (lsTreeRootCache (snd (lsTree r commit path recurse st)))"
proof (cases "path \<noteq> [] \<or> \<not> recurse")
  case True
  then show ?thesis using assms by (simp add: lsTree_bypass logged_def)
next
  case False
  then have root: "path = []" "recurse" by simp_all
  show ?thesis
  proof (cases "map_of (lsTreeRootCache st) (cacheKey r commit [])")
    case None
    show ?thesis
    proof (cases "fst (lsTreeUncached r commit [] True)")
      case (Inl e)
      then show ?thesis using lsTree_miss [OF None] assms root by simp
    next
      case (Inr entries)
      then show ?thesis
        using lsTree_miss [OF None] assms root cacheConsistent_lruAdd [OF assms Inr]
        by simp
    qed
  next
    case (Some v)
    then show ?thesis
      using lsTree_hit [OF Some] root cacheConsistent_lruGet [OF assms] by simp
  qed
qed

lemma Lstat_unfold:
  "Lstat r commit path st =
     (case checkSpecArgSafety r commit of
        Some msg \<Rightarrow> (Inl (UnsafeArgumentError msg), st)
      | None \<Rightarrow>
          if Clean (Rel r path) = ''.''
          then (Inr \<lparr>Name' = [], Mode' = ModeDir, Size' = 0, Sys' = None\<rparr>, st)
          else
            (case fst (lsTreeUncached r commit (Clean (Rel r path)) False) of
               Inl e \<Rightarrow> Inl e
             | Inr fis \<Rightarrow>
                 if fis = [] then Inl (PathErrorNotExist ''ls-tree'' (Clean (Rel r path)))
                 else Inr (fis ! 0),
             logged st (snd (lsTreeUncached r commit (Clean (Rel r path)) False))))"
  by (simp add: Lstat_def Let_def lsTree_bypass split: option.splits sum.splits)

lemma Lstat_fst_indep: "fst (Lstat r commit path st) = fst (Lstat r commit path st')"
  by (simp add: Lstat_unfold split: option.splits)

lemma Lstat_cache: "lsTreeRootCache (snd (Lstat r commit path st)) = lsTreeRootCache st"
  by (simp add: Lstat_unfold logged_def split: option.splits)

lemma Stat_cache: "lsTreeRootCache (snd (Stat r commit path st)) = lsTreeRootCache st"
proof -
  obtain res1 st1 where l1: "Lstat r commit (Rel r path) st = (res1, st1)"
    by (cases "Lstat r commit (Rel r path) st")
  then have c1: "lsTreeRootCache st1 = lsTreeRootCache st"
    using Lstat_cache [of r commit "Rel r path" st] by simp
  obtain b runs where rb: "readFileBytes r commit (Rel r path) = (b, runs)"
    by (cases "readFileBytes r commit (Rel r path)")
  have c2: "lsTreeRootCache (snd (Lstat r commit target (logged st1 runs))) = lsTreeRootCache st"
    for target
    using Lstat_cache [of r commit target "logged st1 runs"] c1 by (simp add: logged_def)
  show ?thesis
  proof (cases "checkSpecArgSafety r commit")
    case (Some msg)
    then show ?thesis by (simp add: Stat_def)
  next
    case None
    show ?thesis
    proof (cases res1)
      case (Inl e)
      then show ?thesis using None l1 c1 by (simp add: Stat_def)
    next
      case (Inr fi)
      show ?thesis
      proof (cases "Mode' fi AND ModeSymlink \<noteq> 0")
        case False
        then show ?thesis using None l1 c1 Inr by (simp add: Stat_def)
      next
        case True
        show ?thesis
        proof (cases b)
          case (Inl e)
          then show ?thesis
            using None l1 c1 \<open>res1 = Inr fi\<close> True rb by (simp add: Stat_def logged_def)
        next
          case (Inr target)
          obtain res2 st3 where l2: "Lstat r commit target (logged st1 runs) = (res2, st3)"
            by (cases "Lstat r commit target (logged st1 runs)")
          then have "lsTreeRootCache st3 = lsTreeRootCache st"
            using c2 [of target] by simp
          then show ?thesis
            using None l1 \<open>res1 = Inr fi\<close> True rb Inr l2
            by (cases res2) (simp_all add: Stat_def)
        qed
      qed
    qed
  qed
qed

lemma ReadDir_result:
  assumes "cacheConsistent r (lsTreeRootCache st)" "checkSpecArgSafety r commit = None"
  shows "fst (ReadDir r commit path recurse st) =
     fst (lsTreeUncached r commit (if path \<noteq> [] then Clean (Rel r path) @ ''/'' else path) recurse)"
  using assms by (simp add: ReadDir_def Let_def lsTree_result)

lemma ReadDir_consistent:
  assumes "cacheConsistent r (lsTreeRootCache st)"
  shows "cacheConsistent r (lsTreeRootCache (snd (ReadDir r commit path recurse st)))"
  using assms by (simp add: ReadDir_def Let_def lsTree_consistent split: option.splits)

lemma reachable_consistent: "reachable r st \<Longrightarrow> cacheConsistent r (lsTreeRootCache st)"
proof (induction rule: reachable.induct)
  case start
  show ?case by (simp add: initWorld_def cacheConsistent_def)
next
  case (lstat st commit path)
  then show ?case by (simp add: Lstat_cache)
next
  case (stat st commit path)
  then show ?case by (simp add: Stat_cache)
next
  case (readDir st commit path recurse)
  from readDir.IH show ?case by (rule ReadDir_consistent)
qed

lemma keyCommit_Some:
  assumes "keyCommit r key = Some commit"
  shows "key = cacheKey r commit []"
proof -
  let ?pre = "repoURI r @ '':''"
  have h: "HasPrefix key ?pre" "length ?pre < length key" "last key = CHR '':''"
      "commit = butlast (drop (length ?pre) key)"
    using assms by (auto simp: keyCommit_def Let_def split: if_splits)
  have k: "key = ?pre @ drop (length ?pre) key"
    using h(1) by (metis HasPrefix_def append_take_drop_id)
  have ne: "drop (length ?pre) key \<noteq> []"
    using h(2) by simp
  then have "last (drop (length ?pre) key) = CHR '':''"
    using h(3) by (metis k last_appendR)
  then have "drop (length ?pre) key = commit @ '':''"
    using ne h(4) by (metis append_butlast_last_id)
  then show ?thesis
    using k by (simp add: cacheKey_def)
qed

lemma cacheConsistent_lruAdd_other:
  assumes "cacheConsistent r c" "keyCommit r k = None"
  shows "cacheConsistent r (lruAdd c k v)"
proof -
  let ?c = "(k, v) # filter (\<lambda>kv. fst kv \<noteq> k) c"
  have "cacheConsistent r (filter (\<lambda>kv. fst kv \<noteq> k) c)"
    using assms(1) by (rule cacheConsistent_subset) simp
  then have full: "cacheConsistent r ?c"
    using assms(2) by (simp add: cacheConsistent_def)
  then have "cacheConsistent r (butlast ?c)"
    using set_butlast_subset by (rule cacheConsistent_subset)
  with full show ?thesis
    by (simp add: lruAdd_def Let_def del: butlast.simps)
qed

lemma lsTree_other_repository:
  assumes "cacheConsistent r (lsTreeRootCache st)"
    and "\<And>c c'. cacheKey r c [] \<noteq> cacheKey r' c' []"
  shows "cacheConsistent r (lsTreeRootCache (snd (lsTree r' commit path recurse st)))"
proof (cases "path \<noteq> [] \<or> \<not> recurse")
  case True
  then show ?thesis using assms(1) by (simp add: lsTree_bypass logged_def)
next
  case False
  then have root: "path = []" "recurse" by simp_all
  have other: "keyCommit r (cacheKey r' commit []) = None"
  proof (cases "keyCommit r (cacheKey r' commit [])")
    case (Some c)
    then have "cacheKey r' commit [] = cacheKey r c []"
      by (rule keyCommit_Some)
    with assms(2) [of c commit] show ?thesis by simp
  qed simp
  show ?thesis
  proof (cases "map_of (lsTreeRootCache st) (cacheKey r' commit [])")
    case None
    show ?thesis
    proof (cases "fst (lsTreeUncached r' commit [] True)")
      case (Inl e)
      then show ?thesis using lsTree_miss [OF None] assms(1) root by simp
    next
      case (Inr entries)
      then show ?thesis
        using lsTree_miss [OF None] assms(1) root
          cacheConsistent_lruAdd_other [OF assms(1) other]
        by simp
    qed
  next
    case (Some v)
    then show ?thesis
      using lsTree_hit [OF Some] root cacheConsistent_lruGet [OF assms(1)] by simp
  qed
qed

lemma ReadDir_other_repository:
  assumes "cacheConsistent r (lsTreeRootCache st)"
    and "\<And>c c'. cacheKey r c [] \<noteq> cacheKey r' c' []"
  shows "cacheConsistent r (lsTreeRootCache (snd (ReadDir r' commit path recurse st)))"
  using assms(1) lsTree_other_repository [OF assms]
  by (simp add: ReadDir_def Let_def split: option.splits)

lemma lsTreeUncached_failed:
  assumes "ensureAbsCommit r commit = None" "checkSpecArgSafety r path = None"
    and "CombinedOutput r (''git'' # lsTreeArgs commit path recurse) = (out, Some e)"
  shows "fst (lsTreeUncached r commit path recurse) =
     (if Contains out ''exists on disk, but not in''
      then Inl (PathErrorNotExist ''ls-tree'' (ToSlash path))
      else Inl (ExecError (''git'' # lsTreeArgs commit path recurse) e out))"
  using assms by (simp add: lsTreeUncached_def Let_def)

lemma lsTreeUncached_panic:
  assumes "ensureAbsCommit r commit = Some msg"
  shows "lsTreeUncached r commit path recurse = (Inl (Panic msg), [])"
  using assms by (simp add: lsTreeUncached_def)

lemma lsTreeUncached_unsafe:
  assumes "ensureAbsCommit r commit = None" "checkSpecArgSafety r path = Some msg"
  shows "lsTreeUncached r commit path recurse = (Inl (UnsafeArgumentError msg), [])"
  using assms by (simp add: lsTreeUncached_def)

lemma lsTreeUncached_Inr_run:
  assumes "fst (lsTreeUncached r commit path recurse) = Inr fis"
  shows "ensureAbsCommit r commit = None \<and> checkSpecArgSafety r path = None \<and>
         (\<exists>out. CombinedOutput r (''git'' # lsTreeArgs commit path recurse) = (out, None))"
proof -
  obtain out err where c: "CombinedOutput r (''git'' # lsTreeArgs commit path recurse) = (out, err)"
    by (cases "CombinedOutput r (''git'' # lsTreeArgs commit path recurse)")
  have a: "ensureAbsCommit r commit = None"
    using assms lsTreeUncached_panic [where r = r and commit = commit and path = path and recurse = recurse]
    by (cases "ensureAbsCommit r commit") simp_all
  have g: "checkSpecArgSafety r path = None"
    using assms lsTreeUncached_unsafe [OF a, where path = path and recurse = recurse]
    by (cases "checkSpecArgSafety r path") simp_all
  have "err = None"
    using assms lsTreeUncached_failed [OF a g, where out = out and recurse = recurse] c
    by (cases err) (simp_all split: if_splits)
  then show ?thesis
    using a g c by simp
qed

lemma ReadDir_Inr:
  assumes "cacheConsistent r (lsTreeRootCache st)"
    and "fst (ReadDir r commit path recurse st) = Inr fis"
  shows "fst (lsTreeUncached r commit (listedPath r path) recurse) = Inr fis"
proof -
  have "checkSpecArgSafety r commit = None"
    using assms(2) by (cases "checkSpecArgSafety r commit") (simp_all add: ReadDir_def)
  then show ?thesis
    using ReadDir_result [OF assms(1), of commit path recurse] assms(2)
    by (simp add: listedPath_def)
qed

lemma malformed_not_notFound: "isMalformedOutput e \<Longrightarrow> \<not> isNotFound e"
  by (cases e) (simp_all add: isMalformedOutput_def isNotFound_def)

lemma lsTreeUncached_loop_error:
  assumes "ensureAbsCommit r commit = None" "checkSpecArgSafety r path = None"
    and "CombinedOutput r (''git'' # lsTreeArgs commit path recurse) = (out, None)"
    and "out \<noteq> []"
    and "fst (lsTreeUncached r commit path recurse) = Inl e"
  shows "isMalformedOutput e"
proof -
  let ?entry = "\<lambda>l. fst (lsTreeEntry r out (trimPathOf path) (prefixLenOf path) l)"
  have "outcomes (map ?entry (butlast (Split out NUL))) = Inl e"
    using fst_lsTreeUncached [OF assms(1-4)] assms(5)
    by (cases "outcomes (map ?entry (butlast (Split out NUL)))") simp_all
  then have "Inl e \<in> set (map ?entry (butlast (Split out NUL)))"
    by (rule outcomes_Inl)
  then obtain l where "?entry l = Inl e"
    by (auto simp: image_iff)
  then show ?thesis
    using prefixLenOf_bound by (rule lsTreeEntry_error)
qed

lemma ModeDir_not_symlink: "ModeDir AND ModeSymlink = 0"
  by (simp add: ModeDir_def ModeSymlink_def)

lemma Lstat_Inr_guard:
  assumes "fst (Lstat r commit path st) = Inr fi"
  shows "checkSpecArgSafety r commit = None"
  using assms by (cases "checkSpecArgSafety r commit") (simp_all add: Lstat_unfold)

lemma Lstat_symlink_not_root:
  assumes "fst (Lstat r commit path st) = Inr fi" "Mode' fi AND ModeSymlink \<noteq> 0"
  shows "Clean (Rel r path) \<noteq> ''.''"
proof
  assume "Clean (Rel r path) = ''.''"
  then have "Mode' fi = ModeDir"
    using assms(1) Lstat_Inr_guard [OF assms(1)] by (auto simp: Lstat_unfold)
  then show False
    using assms(2) ModeDir_not_symlink by simp
qed

lemma Lstat_invocations:
  assumes "checkSpecArgSafety r commit = None" "Clean (Rel r path) \<noteq> ''.''"
  shows "invocations (snd (Lstat r commit path st)) =
     invocations st @ snd (lsTreeUncached r commit (Clean (Rel r path)) False)"
  using assms by (simp add: Lstat_unfold logged_def)

lemma Stat_symlink:
  assumes "fst (Lstat r commit (Rel r path) st) = Inr fi" "Mode' fi AND ModeSymlink \<noteq> 0"
    and "fst (readFileBytes r commit (Rel r path)) = Inr target"
    and "fst (Lstat r commit target st) = Inr fi2"
  shows "Stat r commit path st =
     (Inr (fi2\<lparr>Name' := Name' fi\<rparr>),
      snd (Lstat r commit target
             (logged (snd (Lstat r commit (Rel r path) st))
                (snd (readFileBytes r commit (Rel r path))))))"
proof -
  obtain st1 where l1: "Lstat r commit (Rel r path) st = (Inr fi, st1)"
    using assms(1) by (cases "Lstat r commit (Rel r path) st") simp
  obtain runs where rb: "readFileBytes r commit (Rel r path) = (Inr target, runs)"
    using assms(3) by (cases "readFileBytes r commit (Rel r path)") simp
  have "fst (Lstat r commit target (logged st1 runs)) = Inr fi2"
    using assms(4) Lstat_fst_indep [of r commit target "logged st1 runs" st] by simp
  then obtain st3 where l2: "Lstat r commit target (logged st1 runs) = (Inr fi2, st3)"
    by (cases "Lstat r commit target (logged st1 runs)") simp
  show ?thesis
    using Lstat_Inr_guard [OF assms(1)] l1 assms(2) rb l2 by (simp add: Stat_def)
qed

lemma chainRepo_Lstat:
  "fst (Lstat chainRepo exampleOid (Rel chainRepo ''link'') initWorld) = Inr (linkEntry ''link'')"
  "fst (Lstat chainRepo exampleOid (Rel chainRepo ''link2'') initWorld) = Inr (linkEntry ''link2'')"
  "fst (Lstat chainRepo exampleOid ''link2'' initWorld) = Inr (linkEntry ''link2'')"
  "fst (Lstat chainRepo exampleOid ''target'' initWorld) = Inr targetEntry"
  "fst (readFileBytes chainRepo exampleOid (Rel chainRepo ''link'')) = Inr ''link2''"
  "fst (readFileBytes chainRepo exampleOid (Rel chainRepo ''link2'')) = Inr ''target''"
  by code_simp+

lemma linkEntry_symlink: "Mode' (linkEntry name) AND ModeSymlink \<noteq> 0"
  by (simp add: linkEntry_def ModeSymlink_def)





section \<open>The properties of the specification\<close>

text \<open>C1. Cache transparency. In a state whose cache is consistent with the repository (the
  start is, and every state reached by Lstat, Stat and ReadDir is: \<open>reachable_consistent\<close>),
  \<open>lsTree\<close> returns what \<open>lsTreeUncached\<close> returns for the same request, entries or error. A
  request with a non-empty path or without recursion bypasses the cache: the cache stays as
  it is and the subprocesses run are those of \<open>lsTreeUncached\<close>. For the recursive root
  listing, an entry found under the request's key is returned as it is, runs no
  subprocess, and equals the result of the uncached listing. The state after the call is
  consistent again. (The cache is shared by all repositories of the process: a call on
  another repository keeps it consistent with this one as long as the two never form the
  same key, \<open>ReadDir_other_repository\<close>.)\<close>

theorem cache_transparency:
  assumes "cacheConsistent r (lsTreeRootCache st)"
  shows "fst (lsTree r commit path recurse st) = fst (lsTreeUncached r commit path recurse) \<and>
         (path \<noteq> [] \<or> \<not> recurse \<longrightarrow>
            lsTreeRootCache (snd (lsTree r commit path recurse st)) = lsTreeRootCache st \<and>
            invocations (snd (lsTree r commit path recurse st)) =
              invocations st @ snd (lsTreeUncached r commit path recurse)) \<and>
         (\<forall>entries. path = [] \<and> recurse \<and>
            map_of (lsTreeRootCache st) (cacheKey r commit path) = Some entries \<longrightarrow>
            fst (lsTree r commit path recurse st) = Inr entries \<and>
            fst (lsTreeUncached r commit path recurse) = Inr entries \<and>
            invocations (snd (lsTree r commit path recurse st)) = invocations st) \<and>
         cacheConsistent r (lsTreeRootCache (snd (lsTree r commit path recurse st)))"
proof -
  have res: "fst (lsTree r commit path recurse st) = fst (lsTreeUncached r commit path recurse)"
    using assms by (rule lsTree_result)
  have bypass: "path \<noteq> [] \<or> \<not> recurse \<Longrightarrow>
      lsTreeRootCache (snd (lsTree r commit path recurse st)) = lsTreeRootCache st \<and>
      invocations (snd (lsTree r commit path recurse st)) =
        invocations st @ snd (lsTreeUncached r commit path recurse)"
    by (simp add: lsTree_bypass logged_def)
  have hit: "fst (lsTree r commit path recurse st) = Inr entries \<and>
      fst (lsTreeUncached r commit path recurse) = Inr entries \<and>
      invocations (snd (lsTree r commit path recurse st)) = invocations st"
    if "path = []" "recurse" "map_of (lsTreeRootCache st) (cacheKey r commit path) = Some entries"
    for entries
    using that res lsTree_hit [of st r commit entries] by simp
  show ?thesis
    using res bypass hit lsTree_consistent [OF assms] by blast
qed

theorem cache_transparency_witness:
  "cacheConsistent listingRepo (lsTreeRootCache warmWorld) \<and>
   map_of (lsTreeRootCache warmWorld) (cacheKey listingRepo exampleOid []) =
     Some [dirEntry, fileEntry] \<and>
   fst (lsTree listingRepo exampleOid [] True warmWorld) = Inr [dirEntry, fileEntry] \<and>
   fst (lsTreeUncached listingRepo exampleOid [] True) = Inr [dirEntry, fileEntry] \<and>
   invocations (snd (lsTree listingRepo exampleOid [] True warmWorld)) = []"
proof -
  have h: "cacheConsistent listingRepo (lsTreeRootCache warmWorld)"
    by (simp add: warmWorld_def cacheConsistent_def keyCommit_cacheKey listingRepo_root)
  have m: "map_of (lsTreeRootCache warmWorld) (cacheKey listingRepo exampleOid []) =
      Some [dirEntry, fileEntry]"
    by (simp add: warmWorld_def)
  have i: "invocations warmWorld = []"
    by (simp add: warmWorld_def)
  show ?thesis
    using cache_transparency [OF h, of exampleOid "[]" True] h m i by simp
qed

text \<open>C2. Mode translation, for a record with its four fields separated by single spaces
  and followed by a tab, whose object id is an absolute revision and whose size and mode
  fields are read without error (the prefix length being at most the length of the trimmed
  path, as it is for every call of the loop body): the entry of a blob whose mode has the symlink bit of git
  (\<open>020000\<close> octal, 8192) has exactly the mode \<open>ModeSymlink\<close>; the entry of any other blob
  has the mode OR \<open>0644\<close> octal (420), which for a mode below \<open>2 ^ 16\<close> has neither the
  symlink nor the directory bit (a regular file); the entry of a commit has the mode OR
  \<open>ModeSubmodule\<close> and carries the submodule's information with the record's object id as
  commit id; the entry of a tree has the mode OR \<open>ModeDir\<close>.\<close>

theorem mode_translation:
  assumes "SP \<notin> set modeStr" "SP \<notin> set typ" "SP \<notin> set oid"
    and "TAB \<notin> set modeStr" "TAB \<notin> set typ" "TAB \<notin> set oid" "TAB \<notin> set sizeStr"
    and "IsAbsoluteRevision r oid"
    and "parseSize (TrimSpace sizeStr) = Inr sz"
    and "ParseInt modeStr 8 32 = Inr mode"
    and "prefixLen \<le> length trimPath"
  shows "\<exists>fi. fst (lsTreeEntry r out trimPath prefixLen
                  (modeStr @ SP # typ @ SP # oid @ SP # sizeStr @ TAB # p)) = Inr fi \<and>
           Size' fi = sz \<and>
           (typ = ''blob'' \<and> mode AND 8192 \<noteq> 0 \<longrightarrow> Mode' fi = ModeSymlink \<and> Sys' fi = None) \<and>
           (typ = ''blob'' \<and> mode AND 8192 = 0 \<longrightarrow>
              Mode' fi = word_of_int (mode OR 420) \<and> Sys' fi = None \<and>
              (0 \<le> mode \<and> mode < 2 ^ 16 \<longrightarrow>
                 Mode' fi AND ModeSymlink = 0 \<and> Mode' fi AND ModeDir = 0)) \<and>
           (typ = ''commit'' \<longrightarrow>
              Mode' fi = word_of_int (mode OR ModeSubmodule r) \<and>
              (\<exists>url. Sys' fi = Some \<lparr>URL = url, CommitID = oid\<rparr>)) \<and>
           (typ = ''tree'' \<longrightarrow> Mode' fi = word_of_int mode OR ModeDir \<and> Sys' fi = None)"
proof -
  let ?name = "if length p < length trimPath then trimPath else p"
  have len: "\<not> length ?name < prefixLen"
    using assms(11) by simp
  obtain m sys runs where tm: "translateMode r typ oid ?name mode = ((m, sys), runs)"
    by (cases "translateMode r typ oid ?name mode") auto
  have entry: "fst (lsTreeEntry r out trimPath prefixLen
                  (modeStr @ SP # typ @ SP # oid @ SP # sizeStr @ TAB # p)) =
      Inr \<lparr>Name' = drop prefixLen ?name, Mode' = word_of_int m, Size' = sz, Sys' = sys\<rparr>"
    unfolding lsTreeEntry_fields [OF assms(1-7)] Let_def
    using assms(8-10) tm len by simp
  have blobLink: "typ = ''blob'' \<Longrightarrow> mode AND 8192 \<noteq> 0 \<Longrightarrow> word_of_int m = ModeSymlink \<and> sys = None"
    using tm by (auto simp: translateMode_def gitModeSymlink_def)
  have blobFile: "typ = ''blob'' \<Longrightarrow> mode AND 8192 = 0 \<Longrightarrow> m = mode OR 420 \<and> sys = None"
    using tm by (auto simp: translateMode_def gitModeSymlink_def)
  have submodule: "typ = ''commit'' \<Longrightarrow>
      m = mode OR ModeSubmodule r \<and> (\<exists>url. sys = Some \<lparr>URL = url, CommitID = oid\<rparr>)"
    using tm by (auto simp: translateMode_def Let_def split: prod.splits)
  have tree: "typ = ''tree'' \<Longrightarrow> word_of_int m = word_of_int mode OR ModeDir \<and> sys = None"
    using tm by (auto simp: translateMode_def word_of_int_or_ModeDir)
  show ?thesis
    using entry blobLink blobFile submodule tree small_mode_no_type_bits [of mode]
    by auto
qed

theorem mode_translation_witness:
  "\<exists>fi. fst (lsTreeEntry (exampleRepo noGit noCat) [] [] 0
            (''100644'' @ SP # ''blob'' @ SP # exampleOid @ SP # ''      10'' @ TAB # ''a/b.txt'')) = Inr fi \<and>
         Size' fi = 10 \<and> Mode' fi = 33188 \<and> Sys' fi = None \<and>
         Mode' fi AND ModeSymlink = 0 \<and> Mode' fi AND ModeDir = 0"
proof -
  have h: "SP \<notin> set ''100644''" "SP \<notin> set ''blob''" "SP \<notin> set exampleOid"
      "TAB \<notin> set ''100644''" "TAB \<notin> set ''blob''" "TAB \<notin> set exampleOid"
      "TAB \<notin> set ''      10''"
      "IsAbsoluteRevision (exampleRepo noGit noCat) exampleOid"
      "parseSize (TrimSpace ''      10'') = Inr 10"
      "ParseInt ''100644'' 8 32 = Inr 33188"
      "(0::nat) \<le> length ([]::string)"
    by code_simp+
  have m: "(33188::int) AND 8192 = 0" "(33188::int) OR 420 = 33188"
      "(0::int) \<le> 33188" "(33188::int) < 2 ^ 16"
    by code_simp+
  show ?thesis
    using mode_translation [OF h, of "[]" "''a/b.txt''"] m by auto
qed

text \<open>C3. Symlink resolution. When Lstat, on the path as Stat makes it relative, gives an
  entry with the symlink bit, the content read for that path is \<open>target\<close>, and Lstat on
  \<open>target\<close> gives the entry \<open>fi2\<close>, then Stat returns an entry with the name of the link's
  entry (the name asked for, not the target's) and with the mode, the size and the
  submodule information of \<open>fi2\<close>.\<close>

theorem symlink_resolution:
  assumes "fst (Lstat r commit (Rel r path) st) = Inr fi" "Mode' fi AND ModeSymlink \<noteq> 0"
    and "fst (readFileBytes r commit (Rel r path)) = Inr target"
    and "fst (Lstat r commit target st) = Inr fi2"
  shows "\<exists>res. fst (Stat r commit path st) = Inr res \<and> Name' res = Name' fi \<and>
           Mode' res = Mode' fi2 \<and> Size' res = Size' fi2 \<and> Sys' res = Sys' fi2"
  using Stat_symlink [OF assms] by simp

theorem symlink_resolution_witness:
  "\<exists>res. fst (Stat chainRepo exampleOid ''link2'' initWorld) = Inr res \<and>
     Name' res = ''link2'' \<and> Mode' res = 33188 \<and> Size' res = 10 \<and> Sys' res = None"
  using symlink_resolution [OF chainRepo_Lstat(2) linkEntry_symlink chainRepo_Lstat(6)
      chainRepo_Lstat(4)]
  by (simp add: linkEntry_def targetEntry_def)

text \<open>C4. Not-found conditions. As the claim has it, the listing fails with a not-found
  error whenever the output of the subprocess is entirely empty. It does not when the
  subprocess itself failed: killed before printing anything, it leaves an empty output and
  the listing returns the execution error.\<close>

theorem not_found_counterexample:
  "CombinedOutput killedRepo (''git'' # lsTreeArgs exampleOid ''a'' False) =
     ([], Some ''signal: killed'') \<and>
   fst (lsTreeUncached killedRepo exampleOid ''a'' False) =
     Inl (ExecError (''git'' # lsTreeArgs exampleOid ''a'' False) ''signal: killed'' []) \<and>
   \<not> isNotFound (ExecError (''git'' # lsTreeArgs exampleOid ''a'' False) ''signal: killed'' [])"
  by code_simp

text \<open>C4, amended. When the subprocess has been run (the commit is absolute and the guard
  accepts the path), \<open>lsTreeUncached\<close> fails with a not-found error exactly when the
  subprocess failed and its output holds \<open>exists on disk, but not in\<close>, or the subprocess
  succeeded and its output is empty. And Lstat, for an accepted commit and a path other
  than the root, fails with a not-found error when the non-recursive listing returns no
  entry, and returns the first entry otherwise.\<close>

theorem not_found_conditions:
  assumes "ensureAbsCommit r commit = None" "checkSpecArgSafety r path = None"
    and "CombinedOutput r (''git'' # lsTreeArgs commit path recurse) = (out, err)"
  shows "((\<exists>e. fst (lsTreeUncached r commit path recurse) = Inl e \<and> isNotFound e) \<longleftrightarrow>
            (err \<noteq> None \<and> Contains out ''exists on disk, but not in'') \<or>
            (err = None \<and> out = [])) \<and>
         (checkSpecArgSafety r commit = None \<and> Clean (Rel r lpath) \<noteq> ''.'' \<longrightarrow>
            (fst (lsTreeUncached r commit (Clean (Rel r lpath)) False) = Inr [] \<longrightarrow>
               fst (Lstat r commit lpath st) =
                 Inl (PathErrorNotExist ''ls-tree'' (Clean (Rel r lpath)))) \<and>
            (\<forall>fi fis. fst (lsTreeUncached r commit (Clean (Rel r lpath)) False) = Inr (fi # fis) \<longrightarrow>
               fst (Lstat r commit lpath st) = Inr fi))"
proof -
  have listing: "(\<exists>e. fst (lsTreeUncached r commit path recurse) = Inl e \<and> isNotFound e) \<longleftrightarrow>
      (err \<noteq> None \<and> Contains out ''exists on disk, but not in'') \<or> (err = None \<and> out = [])"
  proof (cases err)
    case (Some x)
    then show ?thesis
      using lsTreeUncached_failed [OF assms(1,2), where recurse = recurse and out = out and e = x] assms(3)
      by (simp add: isNotFound_def)
  next
    case None
    show ?thesis
    proof (cases "out = []")
      case True
      then show ?thesis
        using lsTreeUncached_empty [OF assms(1,2), where recurse = recurse] assms(3) None
        by (simp add: isNotFound_def)
    next
      case False
      have "\<not> isNotFound e" if "fst (lsTreeUncached r commit path recurse) = Inl e" for e
        using lsTreeUncached_loop_error [OF assms(1,2) _ False that] assms(3) None
          malformed_not_notFound by simp
      then show ?thesis
        using None False by blast
    qed
  qed
  have lstat: "fst (Lstat r commit lpath st) =
      Inl (PathErrorNotExist ''ls-tree'' (Clean (Rel r lpath)))"
    if "checkSpecArgSafety r commit = None" "Clean (Rel r lpath) \<noteq> ''.''"
      "fst (lsTreeUncached r commit (Clean (Rel r lpath)) False) = Inr []"
    using that by (simp add: Lstat_unfold)
  have lstat': "fst (Lstat r commit lpath st) = Inr fi"
    if "checkSpecArgSafety r commit = None" "Clean (Rel r lpath) \<noteq> ''.''"
      "fst (lsTreeUncached r commit (Clean (Rel r lpath)) False) = Inr (fi # fis)" for fi fis
    using that by (simp add: Lstat_unfold)
  show ?thesis
    using listing lstat lstat' by blast
qed

theorem not_found_conditions_witness:
  "(\<exists>e. fst (lsTreeUncached missingRepo exampleOid ''a'' False) = Inl e \<and> isNotFound e) \<and>
   fst (lsTreeUncached listingRepo exampleOid ''a'' False) = Inr [dirEntry, fileEntry] \<and>
   fst (Lstat listingRepo exampleOid ''a'' initWorld) = Inr dirEntry \<and>
   fst (lsTreeUncached unterminatedRepo exampleOid ''a'' False) = Inr [] \<and>
   fst (Lstat unterminatedRepo exampleOid ''a'' initWorld) = Inl (PathErrorNotExist ''ls-tree'' ''a'')"
proof -
  have m: "ensureAbsCommit missingRepo exampleOid = None"
      "checkSpecArgSafety missingRepo ''a'' = None"
      "CombinedOutput missingRepo (''git'' # lsTreeArgs exampleOid ''a'' False) =
         (''fatal: Path a exists on disk, but not in the commit'', Some ''exit status 128'')"
    by (simp_all add: missingRepo_def exampleRepo_def dashGuard_def HasPrefix_def)
  have c: "Contains ''fatal: Path a exists on disk, but not in the commit''
      ''exists on disk, but not in''"
    by code_simp
  have missing: "\<exists>e. fst (lsTreeUncached missingRepo exampleOid ''a'' False) = Inl e \<and> isNotFound e"
    using not_found_conditions [OF m] c by simp
  have l: "ensureAbsCommit listingRepo exampleOid = None"
      "checkSpecArgSafety listingRepo ''a'' = None"
      "CombinedOutput listingRepo (''git'' # lsTreeArgs exampleOid ''a'' False) =
         (listingBody @ [NUL], None)"
      "checkSpecArgSafety listingRepo exampleOid = None"
      "Clean (Rel listingRepo ''a'') = ''a''"
      "fst (lsTreeUncached listingRepo exampleOid ''a'' False) = Inr (dirEntry # [fileEntry])"
    by code_simp+
  have first: "fst (Lstat listingRepo exampleOid ''a'' initWorld) = Inr dirEntry"
    using not_found_conditions [OF l(1-3), of "''a''" initWorld] l(4-6) by simp
  have u: "ensureAbsCommit unterminatedRepo exampleOid = None"
      "checkSpecArgSafety unterminatedRepo ''a'' = None"
      "CombinedOutput unterminatedRepo (''git'' # lsTreeArgs exampleOid ''a'' False) =
         (''warning'', None)"
      "checkSpecArgSafety unterminatedRepo exampleOid = None"
      "Clean (Rel unterminatedRepo ''a'') = ''a''"
      "fst (lsTreeUncached unterminatedRepo exampleOid ''a'' False) = Inr []"
    by code_simp+
  have none: "fst (Lstat unterminatedRepo exampleOid ''a'' initWorld) =
      Inl (PathErrorNotExist ''ls-tree'' ''a'')"
    using not_found_conditions [OF u(1-3), of "''a''" initWorld] u(4-6) by simp
  show ?thesis
    using missing first none l(6) u(6) by simp
qed




text \<open>C6. Lstat, Stat and ReadDir check the commit identifier with the argument guard
  before anything else: when the guard rejects the commit, each of them returns the guard's
  error as an \<open>UnsafeArgumentError\<close> and leaves the state as it was, so no subprocess has
  been invoked and the cache is untouched.\<close>

theorem guard_precedes_execution:
  assumes "checkSpecArgSafety r commit = Some msg"
  shows "Lstat r commit path st = (Inl (UnsafeArgumentError msg), st) \<and>
         Stat r commit path st = (Inl (UnsafeArgumentError msg), st) \<and>
         ReadDir r commit path recurse st = (Inl (UnsafeArgumentError msg), st)"
  using assms by (simp add: Lstat_def Stat_def ReadDir_def)

theorem guard_precedes_execution_witness:
  "checkSpecArgSafety (exampleRepo noGit noCat) ''-rf'' = Some ''invalid git revision spec: -rf'' \<and>
   Lstat (exampleRepo noGit noCat) ''-rf'' ''a'' initWorld =
     (Inl (UnsafeArgumentError ''invalid git revision spec: -rf''), initWorld) \<and>
   Stat (exampleRepo noGit noCat) ''-rf'' ''a'' initWorld =
     (Inl (UnsafeArgumentError ''invalid git revision spec: -rf''), initWorld) \<and>
   ReadDir (exampleRepo noGit noCat) ''-rf'' ''a'' True initWorld =
     (Inl (UnsafeArgumentError ''invalid git revision spec: -rf''), initWorld) \<and>
   invocations initWorld = []"
proof -
  have h: "checkSpecArgSafety (exampleRepo noGit noCat) ''-rf'' =
      Some ''invalid git revision spec: -rf''"
    by (simp add: exampleRepo_def dashGuard_def HasPrefix_def)
  show ?thesis
    using guard_precedes_execution [OF h] h by (simp add: initWorld_def)
qed

text \<open>C7. Sortedness and uniqueness. The entries are sorted, but nothing removes duplicates:
  when the subprocess reports the same path twice, ReadDir succeeds with two entries of
  the same name, so the sequence is not strictly ascending.\<close>

theorem sorted_by_name_counterexample:
  "fst (ReadDir duplicateRepo exampleOid [] True initWorld) = Inr [fileEntry, fileEntry] \<and>
   \<not> sorted_wrt (<) (map Name' [fileEntry, fileEntry]) \<and>
   \<not> distinct (map Name' [fileEntry, fileEntry])"
  by code_simp

text \<open>C7, amended. When ReadDir succeeds, in a state whose cache is consistent with the
  repository, the entries are sorted ascending by name under the byte-wise order of
  strings; they are strictly ascending exactly when no two of them share a name, which is
  so exactly when the records of the subprocess output derive pairwise different names.\<close>

theorem sorted_by_name:
  assumes "cacheConsistent r (lsTreeRootCache st)"
    and "fst (ReadDir r commit path recurse st) = Inr fis"
  shows "sorted (map Name' fis) \<and>
         (sorted_wrt (<) (map Name' fis) \<longleftrightarrow> distinct (map Name' fis)) \<and>
         (\<exists>out. CombinedOutput r (''git'' # lsTreeArgs commit (listedPath r path) recurse) =
                  (out, None) \<and>
            (distinct (map Name' fis) \<longleftrightarrow>
             distinct (map (entryName (trimPathOf (listedPath r path))
                              (prefixLenOf (listedPath r path)))
                         (butlast (Split out NUL)))))"
proof -
  let ?p = "listedPath r path"
  have u: "fst (lsTreeUncached r commit ?p recurse) = Inr fis"
    using assms by (rule ReadDir_Inr)
  from lsTreeUncached_Inr_run [OF u] obtain out where run:
      "ensureAbsCommit r commit = None" "checkSpecArgSafety r ?p = None"
      "CombinedOutput r (''git'' # lsTreeArgs commit ?p recurse) = (out, None)"
    by blast
  have names: "map Name' fis =
      sort (map (entryName (trimPathOf ?p) (prefixLenOf ?p)) (butlast (Split out NUL)))"
    using run u by (rule lsTreeUncached_names)
  have s: "sorted (map Name' fis)"
    unfolding names by simp
  have d: "distinct (map Name' fis) \<longleftrightarrow>
      distinct (map (entryName (trimPathOf ?p) (prefixLenOf ?p)) (butlast (Split out NUL)))"
    unfolding names by simp
  have "sorted_wrt (<) (map Name' fis) \<longleftrightarrow> distinct (map Name' fis)"
    using s by (simp add: strict_sorted_iff)
  then show ?thesis
    using s d run(3) by blast
qed

theorem sorted_by_name_witness:
  "fst (ReadDir listingRepo exampleOid [] True initWorld) = Inr [dirEntry, fileEntry] \<and>
   sorted (map Name' [dirEntry, fileEntry]) \<and>
   sorted_wrt (<) (map Name' [dirEntry, fileEntry]) \<and>
   distinct (map Name' [dirEntry, fileEntry])"
proof -
  have h: "cacheConsistent listingRepo (lsTreeRootCache initWorld)"
    by (simp add: initWorld_def cacheConsistent_def)
  have v: "fst (ReadDir listingRepo exampleOid [] True initWorld) = Inr [dirEntry, fileEntry]"
    by code_simp
  have d: "distinct (map Name' [dirEntry, fileEntry])"
    by code_simp
  show ?thesis
    using sorted_by_name [OF h v] v d by blast
qed

text \<open>C8. Name derivation. As the claim has it, a record shorter than the queried path gives
  its entry the queried path itself as name. It does not: asked for \<open>sub/file\<close> where \<open>sub\<close> is
  a submodule, the record's path \<open>sub\<close> is shorter than the queried path, and the entry is
  named \<open>file\<close>.\<close>

theorem name_derivation_counterexample:
  "fst (lsTreeUncached submoduleRepo exampleOid ''sub/file'' False) = Inr [submoduleEntry] \<and>
   butlast (Split (submoduleRecord @ [NUL]) NUL) = [submoduleRecord] \<and>
   afterTab submoduleRecord = ''sub'' \<and>
   length (afterTab submoduleRecord) < length ''sub/file'' \<and>
   Name' submoduleEntry = ''file'' \<and> Name' submoduleEntry \<noteq> ''sub/file''"
  by (rule conjI, rule submoduleRepo_file) code_simp

text \<open>C8, amended. When \<open>lsTreeUncached\<close> succeeds, the names of the entries are, sorted, the
  names derived from the records, where \<open>trimPath\<close> is the queried path without a leading
  \<open>./\<close>: for the root (the empty path) the name is the record's full path; for a queried
  path with a slash it is what follows, in the record's path, the position of the queried
  path's last slash; and a record's path shorter than the queried path is replaced by the
  queried path before that slice, so that the name is what follows the last slash of the
  queried path (the whole queried path only when it has no slash).\<close>

theorem name_derivation:
  assumes "ensureAbsCommit r commit = None" "checkSpecArgSafety r path = None"
    and "CombinedOutput r (''git'' # lsTreeArgs commit path recurse) = (out, None)"
    and "fst (lsTreeUncached r commit path recurse) = Inr fis"
  shows "map Name' fis =
           sort (map (entryName (trimPathOf path) (prefixLenOf path)) (butlast (Split out NUL))) \<and>
         (path = [] \<longrightarrow>
            (\<forall>line. entryName (trimPathOf path) (prefixLenOf path) line = afterTab line)) \<and>
         (CHR ''/'' \<notin> set (trimPathOf path) \<longrightarrow>
            (\<forall>line. entryName (trimPathOf path) (prefixLenOf path) line =
               (if length (afterTab line) < length (trimPathOf path) then trimPathOf path
                else afterTab line))) \<and>
         (\<forall>dir base. trimPathOf path = dir @ ''/'' @ base \<and> CHR ''/'' \<notin> set base \<longrightarrow>
            (\<forall>line. entryName (trimPathOf path) (prefixLenOf path) line =
               (if length (afterTab line) < length (trimPathOf path) then base
                else drop (Suc (length dir)) (afterTab line)))) \<and>
         (\<not> HasPrefix path ''./'' \<longrightarrow> trimPathOf path = path) \<and>
         (\<forall>p. path = ''./'' @ p \<longrightarrow> trimPathOf path = p)"
proof -
  have "\<not> HasPrefix path ''./'' \<longrightarrow> trimPathOf path = path"
    by (simp add: trimPathOf_def TrimPrefix_def)
  moreover have "\<forall>p. path = ''./'' @ p \<longrightarrow> trimPathOf path = p"
    by (simp add: trimPathOf_def TrimPrefix_def HasPrefix_def)
  ultimately show ?thesis
    using lsTreeUncached_names [OF assms] entryName_root entryName_no_slash entryName_slash
    by blast
qed

theorem name_derivation_witness:
  "map Name' [submoduleEntry] =
     sort (map (entryName (trimPathOf ''sub/file'') (prefixLenOf ''sub/file''))
            (butlast (Split (submoduleRecord @ [NUL]) NUL))) \<and>
   trimPathOf ''sub/file'' = ''sub'' @ ''/'' @ ''file'' \<and>
   entryName (trimPathOf ''sub/file'') (prefixLenOf ''sub/file'') submoduleRecord = ''file''"
proof -
  have t: "trimPathOf ''sub/file'' = ''sub'' @ ''/'' @ ''file''" "CHR ''/'' \<notin> set ''file''"
      "length (afterTab submoduleRecord) < length (trimPathOf ''sub/file'')"
    by code_simp+
  show ?thesis
    using name_derivation [OF submoduleRepo_run submoduleRepo_file] t by metis
qed




text \<open>C10. Stat follows one link only. When the path read from a symlink's content is itself
  a symlink, Stat returns the entry of that second link, with its symlink mode and under
  the name of the first, and runs nothing more: the subprocesses are those of the listing
  of the path, of the reading of its content and of the listing of the target, so the
  content of the second link is never read.\<close>

theorem stat_one_level:
  assumes "fst (Lstat r commit (Rel r path) st) = Inr fi" "Mode' fi AND ModeSymlink \<noteq> 0"
    and "fst (readFileBytes r commit (Rel r path)) = Inr target"
    and "fst (Lstat r commit target st) = Inr fi2" "Mode' fi2 AND ModeSymlink \<noteq> 0"
  shows "fst (Stat r commit path st) = Inr (fi2\<lparr>Name' := Name' fi\<rparr>) \<and>
         Mode' (fi2\<lparr>Name' := Name' fi\<rparr>) AND ModeSymlink \<noteq> 0 \<and>
         invocations (snd (Stat r commit path st)) =
           invocations st @ snd (lsTreeUncached r commit (Clean (Rel r (Rel r path))) False)
             @ snd (readFileBytes r commit (Rel r path))
             @ snd (lsTreeUncached r commit (Clean (Rel r target)) False)"
proof -
  have g: "checkSpecArgSafety r commit = None"
    using assms(1) by (rule Lstat_Inr_guard)
  have n1: "Clean (Rel r (Rel r path)) \<noteq> ''.''"
    using assms(1,2) by (rule Lstat_symlink_not_root)
  have n2: "Clean (Rel r target) \<noteq> ''.''"
    using assms(4,5) by (rule Lstat_symlink_not_root)
  show ?thesis
    unfolding Stat_symlink [OF assms(1-4)]
    using assms(5) by (simp add: Lstat_invocations [OF g n1] Lstat_invocations [OF g n2] logged_def)
qed

theorem stat_one_level_witness:
  "fst (Stat chainRepo exampleOid ''link'' initWorld) = Inr (linkEntry ''link'') \<and>
   Mode' (linkEntry ''link'') AND ModeSymlink \<noteq> 0 \<and>
   invocations (snd (Stat chainRepo exampleOid ''link'' initWorld)) =
     [''git'' # lsTreeArgs exampleOid ''link'' False,
      [''git'', ''show'', exampleOid @ '':link''],
      ''git'' # lsTreeArgs exampleOid ''link2'' False]"
proof -
  have r: "snd (lsTreeUncached chainRepo exampleOid (Clean (Rel chainRepo (Rel chainRepo ''link''))) False) =
        [''git'' # lsTreeArgs exampleOid ''link'' False]"
      "snd (readFileBytes chainRepo exampleOid (Rel chainRepo ''link'')) =
        [[''git'', ''show'', exampleOid @ '':link'']]"
      "snd (lsTreeUncached chainRepo exampleOid (Clean (Rel chainRepo ''link2'')) False) =
        [''git'' # lsTreeArgs exampleOid ''link2'' False]"
    by code_simp+
  show ?thesis
    using stat_one_level [OF chainRepo_Lstat(1) linkEntry_symlink chainRepo_Lstat(5)
        chainRepo_Lstat(3) linkEntry_symlink] r
    by (simp add: linkEntry_def initWorld_def)
qed

end
